theory Spec2Isabelle
  imports Complex_Main "HOL-Library.Word" "HOL-Library.Multiset"
begin

text \<open>
  A model of machine.go of xray: the statistics, \<open>NewMachine\<close>, and a run of the machine
  as the interleaving of its goroutines, one statement at a time. \<open>Start\<close> and \<open>Wait\<close>
  run on the main goroutine, \<open>inputConsumer\<close> on each worker, \<open>outputConsumer\<close> on the
  collector; the two unbuffered channels are rendezvous between two of them. A schedule
  is the list of the scheduler's picks, and a property of every run is a property of
  every schedule.
\<close>

section \<open>Data model of machine.go\<close>

subsection \<open>Scalars: counters, time and float64\<close>

type_synonym uint64 = "64 word"

text \<open>
  A \<open>time.Time\<close> is read as a number of nanoseconds after Go's zero time (the value of an
  unset \<open>time.Time\<close> field), a \<open>time.Duration\<close> as the int64 number of nanoseconds it is.
\<close>

type_synonym time = int
type_synonym duration = int

definition maxDuration :: duration where
  "maxDuration = 2 ^ 63 - 1"

definition minDuration :: duration where
  "minDuration = - (2 ^ 63)"

text \<open>\<open>t.Sub(u)\<close>: the difference, saturated at the largest and smallest duration.\<close>

definition Sub :: "time \<Rightarrow> time \<Rightarrow> duration" where
  "Sub t u = (let d = t - u in
     if maxDuration < d then maxDuration else if d < minDuration then minDuration else d)"

text \<open>
  A float64 is a finite value, an infinity or NaN. Rounding an exact result to the nearest
  double is the parameter \<open>rnd\<close> of every operation (it may also overflow to an infinity);
  what is proved below holds for every rounding. The two zeros are not told apart: every
  zero these computations produce is the positive one.
\<close>

datatype float64 = Fin rat | PInf | NInf | NaN

text \<open>\<open>float64(i)\<close> for an integer: exact up to \<open>2^53\<close>, rounded beyond.\<close>

definition float_of_int :: "(rat \<Rightarrow> float64) \<Rightarrow> int \<Rightarrow> float64" where
  "float_of_int rnd i = (if \<bar>i\<bar> \<le> 2 ^ 53 then Fin (of_int i) else rnd (of_int i))"

text \<open>
  A rounding keeps the sign of what it rounds up there: a number of at least 1 becomes a
  positive float64 or overflows to \<open>+Inf\<close>. Every rounding mode of IEEE 754 does.
\<close>

definition keeps_positive :: "(rat \<Rightarrow> float64) \<Rightarrow> bool" where
  "keeps_positive rnd = (\<forall>q. 1 \<le> q \<longrightarrow> rnd q = PInf \<or> (\<exists>a. 0 < a \<and> rnd q = Fin a))"

fun fdiv :: "(rat \<Rightarrow> float64) \<Rightarrow> float64 \<Rightarrow> float64 \<Rightarrow> float64" where
  "fdiv rnd NaN y = NaN"
| "fdiv rnd x NaN = NaN"
| "fdiv rnd (Fin a) (Fin b) =
     (if b = 0 then (if a = 0 then NaN else if 0 < a then PInf else NInf) else rnd (a / b))"
| "fdiv rnd (Fin a) y = Fin 0"
| "fdiv rnd PInf (Fin b) = (if 0 \<le> b then PInf else NInf)"
| "fdiv rnd NInf (Fin b) = (if 0 \<le> b then NInf else PInf)"
| "fdiv rnd x y = NaN"

fun fmul :: "(rat \<Rightarrow> float64) \<Rightarrow> float64 \<Rightarrow> float64 \<Rightarrow> float64" where
  "fmul rnd NaN y = NaN"
| "fmul rnd x NaN = NaN"
| "fmul rnd (Fin a) (Fin b) = rnd (a * b)"
| "fmul rnd (Fin a) PInf = (if a = 0 then NaN else if 0 < a then PInf else NInf)"
| "fmul rnd (Fin a) NInf = (if a = 0 then NaN else if 0 < a then NInf else PInf)"
| "fmul rnd PInf (Fin b) = (if b = 0 then NaN else if 0 < b then PInf else NInf)"
| "fmul rnd NInf (Fin b) = (if b = 0 then NaN else if 0 < b then NInf else PInf)"
| "fmul rnd PInf PInf = PInf"
| "fmul rnd NInf NInf = PInf"
| "fmul rnd x y = NInf"

fun fadd :: "(rat \<Rightarrow> float64) \<Rightarrow> float64 \<Rightarrow> float64 \<Rightarrow> float64" where
  "fadd rnd NaN y = NaN"
| "fadd rnd x NaN = NaN"
| "fadd rnd (Fin a) (Fin b) = rnd (a + b)"
| "fadd rnd (Fin a) y = y"
| "fadd rnd x (Fin b) = x"
| "fadd rnd PInf PInf = PInf"
| "fadd rnd NInf NInf = NInf"
| "fadd rnd x y = NaN"

text \<open>Go's integer division and remainder truncate towards zero.\<close>

definition quot :: "int \<Rightarrow> int \<Rightarrow> int" where
  "quot a b = sgn a * sgn b * (\<bar>a\<bar> div \<bar>b\<bar>)"

definition rem :: "int \<Rightarrow> int \<Rightarrow> int" where
  "rem a b = sgn a * (\<bar>a\<bar> mod \<bar>b\<bar>)"

text \<open>
  \<open>d.Seconds()\<close> of package time:
  \<^verbatim>\<open>sec := d / Second; nsec := d % Second; return float64(sec) + float64(nsec)/1e9\<close>
\<close>

definition Seconds :: "(rat \<Rightarrow> float64) \<Rightarrow> duration \<Rightarrow> float64" where
  "Seconds rnd d = (let sec = quot d 1000000000; nsec = rem d 1000000000 in
     fadd rnd (float_of_int rnd sec) (fdiv rnd (float_of_int rnd nsec) (Fin 1000000000)))"

subsection \<open>Statistics, Session and Machine\<close>

record Statistics =
  Start :: time
  Stop :: time
  Total :: duration
  Inputs :: uint64
  Eps :: float64
  Execs :: uint64
  Results :: uint64
  Progress :: float64

text \<open>The zero value \<open>Statistics{}\<close>.\<close>

definition zero_Statistics :: Statistics where
  "zero_Statistics = \<lparr>Start = 0, Stop = 0, Total = 0, Inputs = 0, Eps = Fin 0, Execs = 0,
     Results = 0, Progress = Fin 0\<rparr>"

text \<open>
  Modelled from the spec: the type \<open>Session\<close> is declared outside machine.go; of it the
  code reads the one field \<open>Stats\<close>, a \<open>*Statistics\<close> that may be nil (the prior run's
  snapshot of the spec's session contract). A \<open>*Session\<close> is a \<open>Session option\<close>, nil
  being \<open>None\<close>.
\<close>

record Session =
  Stats :: "Statistics option"

datatype error = IOError string | NilDereference

text \<open>
  The struct \<open>Machine\<close>. The two channels are unbuffered, so they hold no data: a send and
  a receive are one joint step of the two goroutines (see \<open>step\<close>). \<open>wait\<close> is the counter
  of the WaitGroup. A \<open>RunHandler\<close> returns an \<open>interface{}\<close>, nil being \<open>None\<close>; the calls
  of the \<open>ResultHandler\<close> are recorded in the log \<open>handled\<close> of the running system.
\<close>

record 'r Machine =
  Stats :: Statistics
  consumers :: nat
  filename :: string
  wait :: nat
  run_handler :: "string \<Rightarrow> 'r option"

text \<open>
  \<open>NewMachine(consumers, filename, session, run_handler, res_handler)\<close>; \<open>ncpu\<close> is what
  \<open>runtime.NumCPU()\<close> returns. Reading \<open>session.Stats\<close> through a nil \<open>session\<close> is Go's
  nil-pointer panic.
\<close>

definition NewMachine ::
  "int \<Rightarrow> int \<Rightarrow> string \<Rightarrow> Session option \<Rightarrow> (string \<Rightarrow> 'r option) \<Rightarrow> error + 'r Machine" where
  "NewMachine ncpu consumers' filename' session run_handler' =
     (let workers = (if consumers' \<le> 0 then nat (ncpu * 2) else nat consumers') in
      case session of
        None \<Rightarrow> Inl NilDereference
      | Some sess \<Rightarrow>
          (let stats = (case Session.Stats sess of
                          None \<Rightarrow> zero_Statistics
                        | Some st \<Rightarrow> if 0 < Execs st then st else zero_Statistics)
           in Inr \<lparr>Stats = stats, consumers = workers, filename = filename', wait = 0,
                   run_handler = run_handler'\<rparr>))"

subsection \<open>The line source and the rest of the environment\<close>

type_synonym filesystem = "string \<Rightarrow> error + string list"

text \<open>
  Modelled from the spec: \<open>LineReader\<close> is defined outside machine.go. By the spec's line
  source contract, \<open>open(path, startOffset)\<close> fails with an I/O error or gives the finite
  sequence of the file's lines from the line offset on; a file system gives each path the
  error of opening it or its lines.
\<close>

definition LineReader :: "filesystem \<Rightarrow> string \<Rightarrow> int \<Rightarrow> error + string list" where
  "LineReader fs path off = (case fs path of Inl e \<Rightarrow> Inl e | Inr ls \<Rightarrow> Inr (drop (nat off) ls))"

text \<open>
  What a run reads from outside: the file system as the first and as the second call of
  \<open>LineReader\<close> in \<open>Start\<close> find it, what \<open>time.Now()\<close> returns in \<open>Start\<close> and in
  \<open>UpdateStats\<close>, and the rounding of float64 arithmetic.
\<close>

record env =
  fs_count :: filesystem
  fs_run :: filesystem
  now_start :: time
  now_stop :: time
  round64 :: "rat \<Rightarrow> float64"

section \<open>The statements of machine.go\<close>

text \<open>\<open>atomic.AddUint64(&m.Stats.Execs, 1)\<close> and \<open>atomic.AddUint64(&m.Stats.Results, 1)\<close>.\<close>

definition add_Execs :: "'r Machine \<Rightarrow> 'r Machine" where
  "add_Execs m = m\<lparr>Stats := (Stats m)\<lparr>Execs := Execs (Stats m) + 1\<rparr>\<rparr>"

definition add_Results :: "'r Machine \<Rightarrow> 'r Machine" where
  "add_Results m = m\<lparr>Stats := (Stats m)\<lparr>Results := Results (Stats m) + 1\<rparr>\<rparr>"

text \<open>\<open>m.Stats.Inputs = 0\<close>, \<open>m.Stats.Inputs++\<close> and \<open>m.Stats.Start = time.Now()\<close>.\<close>

definition reset_Inputs :: "'r Machine \<Rightarrow> 'r Machine" where
  "reset_Inputs m = m\<lparr>Stats := (Stats m)\<lparr>Inputs := 0\<rparr>\<rparr>"

definition incr_Inputs :: "'r Machine \<Rightarrow> 'r Machine" where
  "incr_Inputs m = m\<lparr>Stats := (Stats m)\<lparr>Inputs := Inputs (Stats m) + 1\<rparr>\<rparr>"

definition stamp_Start :: "env \<Rightarrow> 'r Machine \<Rightarrow> 'r Machine" where
  "stamp_Start en m = m\<lparr>Stats := (Stats m)\<lparr>Start := now_start en\<rparr>\<rparr>"

text \<open>\<open>m.wait.Add(1)\<close>; \<open>m.wait.Done()\<close> is in \<open>work_step\<close>, where a negative counter panics.\<close>

definition wait_Add :: "'r Machine \<Rightarrow> 'r Machine" where
  "wait_Add m = m\<lparr>wait := wait m + 1\<rparr>"

text \<open>\<open>UpdateStats\<close>, its four assignments in the source's order.\<close>

definition UpdateStats :: "env \<Rightarrow> 'r Machine \<Rightarrow> 'r Machine" where
  "UpdateStats en m =
     (let st1 = (Stats m)\<lparr>Stop := now_stop en\<rparr>;
          st2 = st1\<lparr>Total := Sub (Stop st1) (Start st1)\<rparr>;
          st3 = st2\<lparr>Eps := fdiv (round64 en) (float_of_int (round64 en) (uint (Execs st2)))
                               (Seconds (round64 en) (Total st2))\<rparr>;
          st4 = st3\<lparr>Progress := fmul (round64 en)
                  (fdiv (round64 en) (float_of_int (round64 en) (uint (Execs st3)))
                     (float_of_int (round64 en) (uint (Inputs st3))))
                  (Fin 100)\<rparr>
      in m\<lparr>Stats := st4\<rparr>)"

section \<open>The goroutines of a run\<close>

text \<open>
  Where the main goroutine stands: in \<open>Start\<close> (called on a machine \<open>NewMachine\<close> built),
  then in \<open>Wait\<close>. \<open>Counting ls\<close>, \<open>Skipping n ls\<close> and \<open>Pumping ls\<close> are the three
  \<open>range\<close> loops of \<open>Start\<close> with the lines their channel has still to give;
  \<open>Sending l ls\<close> is \<open>AddInput(l)\<close> after \<open>m.wait.Add(1)\<close>, blocked in \<open>m.input <- input\<close>.
\<close>

datatype pc =
    Created
  | Spawning nat
  | SpawnOut
  | ResetInputs
  | OpenCount
  | Counting "string list"
  | Reopen
  | CheckResume "string list"
  | Skipping uint64 "string list"
  | Pumping "string list"
  | Sending string "string list"
  | Failed error
  | Started
  | Waited
  | Finalized

text \<open>
  An \<open>inputConsumer\<close>: not yet started, blocked in \<open>range m.input\<close>, or holding the line
  \<open>in\<close> before each statement of the loop body in turn: the increment of \<open>Execs\<close>, the
  call of \<open>run_handler\<close>, the increment of \<open>Results\<close>, the send \<open>m.output <- res\<close>, and
  \<open>m.wait.Done()\<close>.
\<close>

datatype 'r wstate =
    W_off
  | W_recv
  | W_count string
  | W_run string
  | W_result string 'r
  | W_send string 'r
  | W_done string

text \<open>The \<open>outputConsumer\<close>: not started, blocked in \<open>range m.output\<close>, or before
  \<open>m.res_handler(res)\<close>.\<close>

datatype 'r cstate = C_off | C_recv | C_handle 'r

text \<open>
  The running system: the machine, the goroutines, and the calls made so far, in order:
  \<open>submitted\<close> the lines given to \<open>AddInput\<close>, \<open>ran\<close> the lines \<open>run_handler\<close> was called
  on, \<open>completed\<close> the lines whose \<open>m.wait.Done()\<close> was called, \<open>handled\<close> the results
  \<open>res_handler\<close> was called on. \<open>panicked\<close>: the program died of a negative WaitGroup
  counter.
\<close>

record 'r system =
  machine :: "'r Machine"
  main :: pc
  workers :: "'r wstate list"
  collector :: "'r cstate"
  submitted :: "string list"
  ran :: "string list"
  completed :: "string list"
  handled :: "'r list"
  panicked :: bool

definition boot :: "'r Machine \<Rightarrow> 'r system" where
  "boot m = \<lparr>machine = m, main = Created, workers = replicate (consumers m) W_off,
     collector = C_off, submitted = [], ran = [], completed = [], handled = [],
     panicked = False\<rparr>"

text \<open>
  One statement of the main goroutine. \<open>None\<close>: it is blocked (in the send of \<open>AddInput\<close>,
  or in \<open>m.wait.Wait()\<close> with a positive counter) or has returned.
\<close>

fun main_step :: "env \<Rightarrow> 'r system \<Rightarrow> pc \<Rightarrow> 'r system option" where
  "main_step en s Created = Some (s\<lparr>main := Spawning 0\<rparr>)"
| "main_step en s (Spawning i) =
     (if i < consumers (machine s)
      then Some (s\<lparr>workers := (workers s)[i := W_recv], main := Spawning (i + 1)\<rparr>)
      else Some (s\<lparr>main := SpawnOut\<rparr>))"
| "main_step en s SpawnOut = Some (s\<lparr>collector := C_recv, main := ResetInputs\<rparr>)"
| "main_step en s ResetInputs =
     Some (s\<lparr>machine := reset_Inputs (machine s), main := OpenCount\<rparr>)"
| "main_step en s OpenCount =
     (case LineReader (fs_count en) (filename (machine s)) 0 of
        Inl err \<Rightarrow> Some (s\<lparr>main := Failed err\<rparr>)
      | Inr lines \<Rightarrow> Some (s\<lparr>main := Counting lines\<rparr>))"
| "main_step en s (Counting []) = Some (s\<lparr>main := Reopen\<rparr>)"
| "main_step en s (Counting (l # ls)) =
     Some (s\<lparr>machine := incr_Inputs (machine s), main := Counting ls\<rparr>)"
| "main_step en s Reopen =
     (case LineReader (fs_run en) (filename (machine s)) 0 of
        Inl err \<Rightarrow> Some (s\<lparr>main := Failed err\<rparr>)
      | Inr lines \<Rightarrow> Some (s\<lparr>main := CheckResume lines\<rparr>))"
| "main_step en s (CheckResume lines) =
     (if 0 < Execs (Stats (machine s))
      then Some (s\<lparr>main := Skipping (Execs (Stats (machine s))) lines\<rparr>)
      else Some (s\<lparr>machine := stamp_Start en (machine s), main := Pumping lines\<rparr>))"
| "main_step en s (Skipping n []) = Some (s\<lparr>main := Pumping []\<rparr>)"
| "main_step en s (Skipping n (l # ls)) =
     (if n - 1 = 0 then Some (s\<lparr>main := Pumping ls\<rparr>)
      else Some (s\<lparr>main := Skipping (n - 1) ls\<rparr>))"
| "main_step en s (Pumping []) = Some (s\<lparr>main := Started\<rparr>)"
| "main_step en s (Pumping (l # ls)) =
     Some (s\<lparr>machine := wait_Add (machine s), submitted := submitted s @ [l],
        main := Sending l ls\<rparr>)"
| "main_step en s (Sending l ls) = None"
| "main_step en s (Failed err) = None"
| "main_step en s Started =
     (if wait (machine s) = 0 then Some (s\<lparr>main := Waited\<rparr>) else None)"
| "main_step en s Waited =
     Some (s\<lparr>machine := UpdateStats en (machine s), main := Finalized\<rparr>)"
| "main_step en s Finalized = None"

text \<open>
  The rendezvous on \<open>m.input\<close>: the main goroutine's send meets the receive of worker \<open>i\<close>.
\<close>

definition recv_step :: "nat \<Rightarrow> 'r system \<Rightarrow> 'r system option" where
  "recv_step i s =
     (if i < length (workers s) then
        (case (main s, workers s ! i) of
           (Sending l ls, W_recv) \<Rightarrow>
             Some (s\<lparr>workers := (workers s)[i := W_count l], main := Pumping ls\<rparr>)
         | _ \<Rightarrow> None)
      else None)"

text \<open>One statement of worker \<open>i\<close> between its receive and the end of the loop body.\<close>

fun work_step :: "nat \<Rightarrow> 'r system \<Rightarrow> 'r wstate \<Rightarrow> 'r system option" where
  "work_step i s (W_count l) =
     Some (s\<lparr>machine := add_Execs (machine s), workers := (workers s)[i := W_run l]\<rparr>)"
| "work_step i s (W_run l) =
     (case run_handler (machine s) l of
        None \<Rightarrow> Some (s\<lparr>ran := ran s @ [l], workers := (workers s)[i := W_done l]\<rparr>)
      | Some res \<Rightarrow> Some (s\<lparr>ran := ran s @ [l], workers := (workers s)[i := W_result l res]\<rparr>))"
| "work_step i s (W_result l res) =
     Some (s\<lparr>machine := add_Results (machine s), workers := (workers s)[i := W_send l res]\<rparr>)"
| "work_step i s (W_done l) =
     (if wait (machine s) = 0 then Some (s\<lparr>panicked := True\<rparr>)
      else Some (s\<lparr>machine := (machine s)\<lparr>wait := wait (machine s) - 1\<rparr>,
             completed := completed s @ [l], workers := (workers s)[i := W_recv]\<rparr>))"
| "work_step i s w = None"

text \<open>
  The rendezvous on \<open>m.output\<close>: the send of worker \<open>i\<close> meets the collector's receive.
\<close>

definition deliver_step :: "nat \<Rightarrow> 'r system \<Rightarrow> 'r system option" where
  "deliver_step i s =
     (if i < length (workers s) then
        (case (workers s ! i, collector s) of
           (W_send l res, C_recv) \<Rightarrow>
             Some (s\<lparr>workers := (workers s)[i := W_done l], collector := C_handle res\<rparr>)
         | _ \<Rightarrow> None)
      else None)"

text \<open>The collector calls \<open>m.res_handler(res)\<close>.\<close>

definition handle_step :: "'r system \<Rightarrow> 'r system option" where
  "handle_step s =
     (case collector s of
        C_handle res \<Rightarrow> Some (s\<lparr>handled := handled s @ [res], collector := C_recv\<rparr>)
      | _ \<Rightarrow> None)"

text \<open>
  What the scheduler picks: a statement of the main goroutine, the handoff of a line to
  worker \<open>i\<close>, a statement of worker \<open>i\<close>, the handoff of a result from worker \<open>i\<close>, or
  the handler call of the collector. \<open>step\<close> is \<open>None\<close> where the pick cannot run.
\<close>

datatype event = Main | Recv nat | Work nat | Deliver nat | Handle

definition step :: "env \<Rightarrow> event \<Rightarrow> 'r system \<Rightarrow> 'r system option" where
  "step en e s =
     (if panicked s then None
      else case e of
        Main \<Rightarrow> main_step en s (main s)
      | Recv i \<Rightarrow> recv_step i s
      | Work i \<Rightarrow> (if i < length (workers s) then work_step i s (workers s ! i) else None)
      | Deliver i \<Rightarrow> deliver_step i s
      | Handle \<Rightarrow> handle_step s)"

text \<open>A schedule runs from a state; \<open>None\<close> when one of its picks cannot run.\<close>

fun exec :: "env \<Rightarrow> event list \<Rightarrow> 'r system \<Rightarrow> 'r system option" where
  "exec en [] s = Some s"
| "exec en (e # es) s = (case step en e s of None \<Rightarrow> None | Some s' \<Rightarrow> exec en es s')"

section \<open>Quantities of a run\<close>

text \<open>
  The loop \<open>for range lines { n--; if n == 0 { break } }\<close> of \<open>Start\<close> as a function: the
  lines it leaves in the channel.
\<close>

fun skip_loop :: "uint64 \<Rightarrow> string list \<Rightarrow> string list" where
  "skip_loop n [] = []"
| "skip_loop n (l # ls) = (if n - 1 = 0 then ls else skip_loop (n - 1) ls)"

text \<open>
  For a run of the machine \<open>m0\<close> in the environment \<open>en\<close>: the lines \<open>Start\<close> submits
  when both calls of \<open>LineReader\<close> succeed, the count the first pass finds, and the start
  time the statistics keep.
\<close>

definition to_submit :: "env \<Rightarrow> 'r Machine \<Rightarrow> string list" where
  "to_submit en m0 = (case LineReader (fs_run en) (filename m0) 0 of
       Inl err \<Rightarrow> []
     | Inr ls \<Rightarrow> if 0 < Execs (Stats m0) then skip_loop (Execs (Stats m0)) ls else ls)"

definition count_of :: "env \<Rightarrow> 'r Machine \<Rightarrow> uint64" where
  "count_of en m0 = (case LineReader (fs_count en) (filename m0) 0 of
       Inl err \<Rightarrow> 0
     | Inr ls \<Rightarrow> of_nat (length ls))"

definition start_of :: "env \<Rightarrow> 'r Machine \<Rightarrow> time" where
  "start_of en m0 = (if 0 < Execs (Stats m0) then Start (Stats m0) else now_start en)"

text \<open>
  What each worker and the collector hold, by the place they stand at: a job the WaitGroup
  counts (\<open>holds_job\<close>), a line \<open>run_handler\<close> has not been called on (\<open>unrun\<close>, of which
  \<open>counted\<close> are in \<open>Execs\<close> already), a line it has been called on whose \<open>Done\<close> is to come
  (\<open>running\<close>), a result not yet in \<open>Results\<close> (\<open>untallied\<close>), a result not yet given to
  the collector (\<open>unhanded\<close>), the result of a job that is about to call \<open>Done\<close>
  (\<open>done_res\<close>), the result the collector has received and not yet handled (\<open>cheld\<close>), and
  the line the main goroutine is sending (\<open>sending\<close>). \<open>tally f s\<close> sums \<open>f\<close> over the
  workers.
\<close>

fun holds_job :: "'r wstate \<Rightarrow> nat" where
  "holds_job W_off = 0"
| "holds_job W_recv = 0"
| "holds_job w = 1"

fun unrun :: "'r wstate \<Rightarrow> string multiset" where
  "unrun (W_count l) = {#l#}"
| "unrun (W_run l) = {#l#}"
| "unrun w = {#}"

fun counted :: "'r wstate \<Rightarrow> nat" where
  "counted (W_run l) = 1"
| "counted w = 0"

fun running :: "'r wstate \<Rightarrow> string multiset" where
  "running (W_result l res) = {#l#}"
| "running (W_send l res) = {#l#}"
| "running (W_done l) = {#l#}"
| "running w = {#}"

fun untallied :: "'r wstate \<Rightarrow> nat" where
  "untallied (W_result l res) = 1"
| "untallied w = 0"

fun unhanded :: "'r wstate \<Rightarrow> 'r multiset" where
  "unhanded (W_result l res) = {#res#}"
| "unhanded (W_send l res) = {#res#}"
| "unhanded w = {#}"

fun done_res :: "(string \<Rightarrow> 'r option) \<Rightarrow> 'r wstate \<Rightarrow> 'r multiset" where
  "done_res rh (W_done l) = (case rh l of None \<Rightarrow> {#} | Some res \<Rightarrow> {#res#})"
| "done_res rh w = {#}"

fun cheld :: "'r cstate \<Rightarrow> 'r multiset" where
  "cheld (C_handle res) = {#res#}"
| "cheld c = {#}"

fun sending :: "pc \<Rightarrow> string multiset" where
  "sending (Sending l ls) = {#l#}"
| "sending p = {#}"

definition tally :: "('r wstate \<Rightarrow> 'b::comm_monoid_add) \<Rightarrow> 'r system \<Rightarrow> 'b" where
  "tally f s = sum_list (map f (workers s))"

text \<open>
  A worker between the call of \<open>run_handler\<close> and its send holds the result of that call;
  worker \<open>j\<close> has been started once the main goroutine is past its \<open>go\<close> statement, the
  collector once it is past \<open>go m.outputConsumer()\<close>.
\<close>

fun wf_worker :: "(string \<Rightarrow> 'r option) \<Rightarrow> 'r wstate \<Rightarrow> bool" where
  "wf_worker rh (W_result l res) = (rh l = Some res)"
| "wf_worker rh (W_send l res) = (rh l = Some res)"
| "wf_worker rh w = True"

fun spawned :: "pc \<Rightarrow> nat \<Rightarrow> bool" where
  "spawned Created j = False"
| "spawned (Spawning i) j = (j < i)"
| "spawned p j = True"

fun collecting :: "pc \<Rightarrow> bool" where
  "collecting Created = False"
| "collecting (Spawning i) = False"
| "collecting SpawnOut = False"
| "collecting p = True"

text \<open>The places of the main goroutine after the counting loop of \<open>Start\<close>.\<close>

fun counting_done :: "pc \<Rightarrow> bool" where
  "counting_done Created = False"
| "counting_done (Spawning i) = False"
| "counting_done SpawnOut = False"
| "counting_done ResetInputs = False"
| "counting_done OpenCount = False"
| "counting_done (Counting rest) = False"
| "counting_done p = True"

section \<open>Invariants of a run\<close>

text \<open>
  The WaitGroup: the counter is the number of jobs between \<open>Add\<close> and \<open>Done\<close>, so it never
  goes negative and the program never panics on it.
\<close>

definition inv_sync :: "'r Machine \<Rightarrow> 'r system \<Rightarrow> bool" where
  "inv_sync m0 s = (\<not> panicked s \<and> consumers (machine s) = consumers m0
     \<and> filename (machine s) = filename m0 \<and> run_handler (machine s) = run_handler m0
     \<and> length (workers s) = consumers m0
     \<and> wait (machine s) = size (sending (main s)) + tally holds_job s
     \<and> list_all (wf_worker (run_handler m0)) (workers s)
     \<and> (\<forall>j < length (workers s). (workers s ! j \<noteq> W_off) = spawned (main s) j)
     \<and> (collector s \<noteq> C_off) = collecting (main s))"

text \<open>
  The logs and the counters: every submitted line is with the main goroutine, with one
  worker, or completed; \<open>Execs\<close> and \<open>Results\<close> are the seeded values plus the increments
  done; every result is with a worker, with the collector, or handled.
\<close>

definition inv_logs :: "'r Machine \<Rightarrow> 'r system \<Rightarrow> bool" where
  "inv_logs m0 s = (
     mset (submitted s) = mset (completed s) + tally running s + tally unrun s + sending (main s)
   \<and> mset (ran s) = mset (completed s) + tally running s
   \<and> Execs (Stats (machine s)) = Execs (Stats m0) + of_nat (length (ran s) + tally counted s)
   \<and> Results (Stats (machine s)) + of_nat (tally untallied s)
       = Results (Stats m0) + of_nat (length (List.map_filter (run_handler m0) (ran s)))
   \<and> mset (List.map_filter (run_handler m0) (ran s))
       = mset (handled s) + cheld (collector s) + tally unhanded s
   \<and> mset (handled s) + cheld (collector s)
       = mset (List.map_filter (run_handler m0) (completed s)) + tally (done_res (run_handler m0)) s)"

text \<open>
  The main goroutine, place by place. \<open>quiet\<close>: nothing has been submitted. \<open>frame\<close>: the
  fields of the statistics that only the main goroutine writes. \<open>finalized\<close>: what
  \<open>UpdateStats\<close> leaves.
\<close>

definition quiet :: "'r Machine \<Rightarrow> 'r system \<Rightarrow> bool" where
  "quiet m0 s = (submitted s = [] \<and> ran s = [] \<and> completed s = [] \<and> handled s = []
     \<and> tally holds_job s = 0 \<and> cheld (collector s) = {#} \<and> wait (machine s) = 0
     \<and> Execs (Stats (machine s)) = Execs (Stats m0)
     \<and> Results (Stats (machine s)) = Results (Stats m0))"

definition frame :: "'r Machine \<Rightarrow> 'r system \<Rightarrow> uint64 \<Rightarrow> time \<Rightarrow> bool" where
  "frame m0 s n t = (Stop (Stats (machine s)) = Stop (Stats m0)
     \<and> Total (Stats (machine s)) = Total (Stats m0)
     \<and> Eps (Stats (machine s)) = Eps (Stats m0)
     \<and> Progress (Stats (machine s)) = Progress (Stats m0)
     \<and> Inputs (Stats (machine s)) = n \<and> Start (Stats (machine s)) = t)"

definition finalized :: "env \<Rightarrow> Statistics \<Rightarrow> bool" where
  "finalized en st = (Stop st = now_stop en \<and> Total st = Sub (Stop st) (Start st)
     \<and> Eps st = fdiv (round64 en) (float_of_int (round64 en) (uint (Execs st)))
                  (Seconds (round64 en) (Total st))
     \<and> Progress st = fmul (round64 en)
          (fdiv (round64 en) (float_of_int (round64 en) (uint (Execs st)))
             (float_of_int (round64 en) (uint (Inputs st))))
          (Fin 100))"

definition opened :: "env \<Rightarrow> 'r Machine \<Rightarrow> bool" where
  "opened en m0 = (\<not> isl (LineReader (fs_count en) (filename m0) 0)
     \<and> \<not> isl (LineReader (fs_run en) (filename m0) 0))"

fun phase_inv :: "env \<Rightarrow> 'r Machine \<Rightarrow> 'r system \<Rightarrow> pc \<Rightarrow> bool" where
  "phase_inv en m0 s (OpenCount) = (quiet m0 s \<and> frame m0 s 0 (Start (Stats m0)))"
| "phase_inv en m0 s (Counting rest) = (quiet m0 s
     \<and> \<not> isl (LineReader (fs_count en) (filename m0) 0)
     \<and> frame m0 s (count_of en m0 - of_nat (length rest)) (Start (Stats m0)))"
| "phase_inv en m0 s Reopen = (quiet m0 s
     \<and> \<not> isl (LineReader (fs_count en) (filename m0) 0)
     \<and> frame m0 s (count_of en m0) (Start (Stats m0)))"
| "phase_inv en m0 s (CheckResume ls) = (quiet m0 s
     \<and> \<not> isl (LineReader (fs_count en) (filename m0) 0)
     \<and> LineReader (fs_run en) (filename m0) 0 = Inr ls
     \<and> frame m0 s (count_of en m0) (Start (Stats m0)))"
| "phase_inv en m0 s (Skipping n rest) = (quiet m0 s \<and> opened en m0
     \<and> 0 < Execs (Stats m0) \<and> n \<noteq> 0 \<and> skip_loop n rest = to_submit en m0
     \<and> frame m0 s (count_of en m0) (Start (Stats m0)))"
| "phase_inv en m0 s (Failed err) = (quiet m0 s
     \<and> frame m0 s (count_of en m0) (Start (Stats m0))
     \<and> (LineReader (fs_count en) (filename m0) 0 = Inl err
        \<or> \<not> isl (LineReader (fs_count en) (filename m0) 0)
          \<and> LineReader (fs_run en) (filename m0) 0 = Inl err))"
| "phase_inv en m0 s (Pumping rest) = (opened en m0
     \<and> to_submit en m0 = submitted s @ rest
     \<and> frame m0 s (count_of en m0) (start_of en m0))"
| "phase_inv en m0 s (Sending l rest) = (opened en m0
     \<and> to_submit en m0 = submitted s @ rest
     \<and> frame m0 s (count_of en m0) (start_of en m0))"
| "phase_inv en m0 s Started = (opened en m0
     \<and> to_submit en m0 = submitted s
     \<and> frame m0 s (count_of en m0) (start_of en m0))"
| "phase_inv en m0 s Waited = (opened en m0
     \<and> to_submit en m0 = submitted s \<and> wait (machine s) = 0
     \<and> frame m0 s (count_of en m0) (start_of en m0))"
| "phase_inv en m0 s Finalized = (opened en m0
     \<and> to_submit en m0 = submitted s \<and> wait (machine s) = 0
     \<and> Inputs (Stats (machine s)) = count_of en m0
     \<and> Start (Stats (machine s)) = start_of en m0
     \<and> finalized en (Stats (machine s)))"
| "phase_inv en m0 s p = (quiet m0 s \<and> frame m0 s (Inputs (Stats m0)) (Start (Stats m0)))"

definition inv :: "env \<Rightarrow> 'r Machine \<Rightarrow> 'r system \<Rightarrow> bool" where
  "inv en m0 s = (inv_sync m0 s \<and> inv_logs m0 s \<and> phase_inv en m0 s (main s))"

section \<open>Example runs\<close>

text \<open>
  The wordlist \<open>admin, root, guest\<close> in the file \<open>words\<close> (no other file opens), a
  \<open>run_handler\<close> that returns the line itself for \<open>root\<close> and nil otherwise, two workers.
  \<open>sched3\<close> is a schedule of a whole run, from \<open>Start\<close> to the return of \<open>Wait\<close>; it ends
  in \<open>race3\<close>, where the collector has not yet called the handler, and one more pick ends
  in \<open>fin3\<close>.
\<close>

definition fs3 :: filesystem where
  "fs3 p = (if p = ''words'' then Inr [''admin'', ''root'', ''guest''] else Inl (IOError p))"

definition env3 :: env where
  "env3 = \<lparr>fs_count = fs3, fs_run = fs3, now_start = 5000000000, now_stop = 8000000000,
     round64 = Fin\<rparr>"

definition rh3 :: "string \<Rightarrow> string option" where
  "rh3 l = (if l = ''root'' then Some l else None)"

definition fresh_session :: Session where
  "fresh_session = \<lparr>Session.Stats = None\<rparr>"

definition m3 :: "string Machine" where
  "m3 = \<lparr>Stats = zero_Statistics, consumers = 2, filename = ''words'', wait = 0,
     run_handler = rh3\<rparr>"

definition sched3 :: "event list" where
  "sched3 = [Main, Main, Main, Main, Main, Main, Main, Main, Main, Main, Main, Main, Main,
     Main, Recv 0, Main, Recv 1, Work 0, Work 0, Work 0, Main, Recv 0, Work 1, Work 1, Work 1,
     Deliver 1, Work 1, Work 0, Work 0, Work 0, Main, Main, Main]"

definition stats3 :: Statistics where
  "stats3 = \<lparr>Start = 5000000000, Stop = 8000000000, Total = 3000000000, Inputs = 3,
           Eps = Fin 1, Execs = 3, Results = 1, Progress = Fin 100\<rparr>"

definition race3 :: "string system" where
  "race3 = \<lparr>machine = m3\<lparr>Stats := stats3\<rparr>, main = Finalized, workers = [W_recv, W_recv],
     collector = C_handle ''root'', submitted = [''admin'', ''root'', ''guest''],
     ran = [''admin'', ''root'', ''guest''], completed = [''admin'', ''root'', ''guest''],
     handled = [], panicked = False\<rparr>"

definition fin3 :: "string system" where
  "fin3 = race3\<lparr>handled := [''root''], collector := C_recv\<rparr>"

text \<open>The same machine after eight statements of \<open>Start\<close>, in the counting pass.\<close>

definition counting3 :: "string system" where
  "counting3 = \<lparr>machine = m3\<lparr>Stats := zero_Statistics\<lparr>Inputs := 1\<rparr>\<rparr>,
     main = Counting [''root'', ''guest''], workers = [W_recv, W_recv], collector = C_recv,
     submitted = [], ran = [], completed = [], handled = [], panicked = False\<rparr>"

text \<open>
  A resumed run over the same wordlist: the prior session ran \<open>admin\<close> and \<open>root\<close> (two
  executions, one result) in two seconds. \<open>sched3r\<close> is a schedule of the whole resumed
  run and ends in \<open>fin3r\<close>; \<open>reset3r\<close> is the state after its first six picks, the
  first assignment of the counting pass done.
\<close>

definition prior3 :: Statistics where
  "prior3 = \<lparr>Start = 2000000000, Stop = 4000000000, Total = 2000000000, Inputs = 3,
     Eps = Fin 1, Execs = 2, Results = 1, Progress = Fin (200 / 3)\<rparr>"

definition resumed_session :: Session where
  "resumed_session = \<lparr>Session.Stats = Some prior3\<rparr>"

definition m3r :: "string Machine" where
  "m3r = \<lparr>Stats = prior3, consumers = 2, filename = ''words'', wait = 0, run_handler = rh3\<rparr>"

definition sched3r :: "event list" where
  "sched3r = [Main, Main, Main, Main, Main, Main, Main, Main, Main, Main, Main, Main, Main,
     Main, Main, Main, Recv 0, Work 0, Work 0, Work 0, Main, Main, Main]"

definition fin3r :: "string system" where
  "fin3r = \<lparr>machine = m3r\<lparr>Stats := \<lparr>Start = 2000000000, Stop = 8000000000,
       Total = 6000000000, Inputs = 3, Eps = Fin (1 / 2), Execs = 3, Results = 1,
       Progress = Fin 100\<rparr>\<rparr>,
     main = Finalized, workers = [W_recv, W_recv], collector = C_recv,
     submitted = [''guest''], ran = [''guest''], completed = [''guest''], handled = [],
     panicked = False\<rparr>"

definition reset3r :: "string system" where
  "reset3r = \<lparr>machine = m3r\<lparr>Stats := prior3\<lparr>Inputs := 0\<rparr>\<rparr>, main = OpenCount,
     workers = [W_recv, W_recv], collector = C_recv, submitted = [], ran = [], completed = [],
     handled = [], panicked = False\<rparr>"

text \<open>A machine on a file that does not open, and where its \<open>Start\<close> ends.\<close>

definition m4 :: "string Machine" where
  "m4 = \<lparr>Stats = zero_Statistics, consumers = 2, filename = ''missing'', wait = 0,
     run_handler = rh3\<rparr>"

definition failed4 :: "string system" where
  "failed4 = \<lparr>machine = m4, main = Failed (IOError ''missing''), workers = [W_recv, W_recv],
     collector = C_recv, submitted = [], ran = [], completed = [], handled = [],
     panicked = False\<rparr>"

text \<open>A machine with two executions and no inputs counted.\<close>

definition m5 :: "string Machine" where
  "m5 = m3r\<lparr>Stats := prior3\<lparr>Inputs := 0\<rparr>\<rparr>"

text \<open>The same with \<open>2^60\<close> executions, more than float64 holds exactly.\<close>

definition m6 :: "string Machine" where
  "m6 = m3r\<lparr>Stats := prior3\<lparr>Inputs := 0, Execs := 2 ^ 60\<rparr>\<rparr>"

section \<open>The steps, case by case\<close>

lemma sum_list_map_update:
  fixes f :: "'a \<Rightarrow> 'b::comm_monoid_add"
  shows "i < length xs \<Longrightarrow> sum_list (map f (xs[i := y])) + f (xs ! i) = sum_list (map f xs) + f y"
proof (induction xs arbitrary: i)
  case Nil then show ?case by simp
next
  case (Cons x xs)
  show ?case
  proof (cases i)
    case 0 then show ?thesis by (simp add: ac_simps)
  next
    case (Suc j)
    with Cons.prems have "j < length xs" by simp
    from Cons.IH[OF this] show ?thesis using Suc by (simp add: ac_simps)
  qed
qed

lemma main_step_cases:
  assumes "main_step en s (main s) = Some s'"
  obtains
    (Call) "main s = Created" "s' = s\<lparr>main := Spawning 0\<rparr>"
  | (Spawn) i where "main s = Spawning i" "i < consumers (machine s)"
      "s' = s\<lparr>workers := (workers s)[i := W_recv], main := Spawning (i + 1)\<rparr>"
  | (Spawned) i where "main s = Spawning i" "\<not> i < consumers (machine s)" "s' = s\<lparr>main := SpawnOut\<rparr>"
  | (Collector) "main s = SpawnOut" "s' = s\<lparr>collector := C_recv, main := ResetInputs\<rparr>"
  | (Reset) "main s = ResetInputs" "s' = s\<lparr>machine := reset_Inputs (machine s), main := OpenCount\<rparr>"
  | (OpenFail) err where "main s = OpenCount"
      "LineReader (fs_count en) (filename (machine s)) 0 = Inl err" "s' = s\<lparr>main := Failed err\<rparr>"
  | (Opened) ls where "main s = OpenCount"
      "LineReader (fs_count en) (filename (machine s)) 0 = Inr ls" "s' = s\<lparr>main := Counting ls\<rparr>"
  | (Count) l ls where "main s = Counting (l # ls)"
      "s' = s\<lparr>machine := incr_Inputs (machine s), main := Counting ls\<rparr>"
  | (Counted) "main s = Counting []" "s' = s\<lparr>main := Reopen\<rparr>"
  | (ReopenFail) err where "main s = Reopen"
      "LineReader (fs_run en) (filename (machine s)) 0 = Inl err" "s' = s\<lparr>main := Failed err\<rparr>"
  | (Reopened) ls where "main s = Reopen"
      "LineReader (fs_run en) (filename (machine s)) 0 = Inr ls" "s' = s\<lparr>main := CheckResume ls\<rparr>"
  | (Resume) ls where "main s = CheckResume ls" "0 < Execs (Stats (machine s))"
      "s' = s\<lparr>main := Skipping (Execs (Stats (machine s))) ls\<rparr>"
  | (Fresh) ls where "main s = CheckResume ls" "\<not> 0 < Execs (Stats (machine s))"
      "s' = s\<lparr>machine := stamp_Start en (machine s), main := Pumping ls\<rparr>"
  | (SkipEnd) n where "main s = Skipping n []" "s' = s\<lparr>main := Pumping []\<rparr>"
  | (SkipLast) n l ls where "main s = Skipping n (l # ls)" "n - 1 = 0" "s' = s\<lparr>main := Pumping ls\<rparr>"
  | (Skip) n l ls where "main s = Skipping n (l # ls)" "n - 1 \<noteq> 0" "s' = s\<lparr>main := Skipping (n - 1) ls\<rparr>"
  | (Add) l ls where "main s = Pumping (l # ls)"
      "s' = s\<lparr>machine := wait_Add (machine s), submitted := submitted s @ [l], main := Sending l ls\<rparr>"
  | (Return) "main s = Pumping []" "s' = s\<lparr>main := Started\<rparr>"
  | (Wait) "main s = Started" "wait (machine s) = 0" "s' = s\<lparr>main := Waited\<rparr>"
  | (Update) "main s = Waited" "s' = s\<lparr>machine := UpdateStats en (machine s), main := Finalized\<rparr>"
  using assms
  by (cases "(en, s, main s)" rule: main_step.cases) (auto split: sum.splits if_splits)

lemma work_step_cases:
  assumes "work_step i s (workers s ! i) = Some s'"
  obtains
    (Exec) l where "workers s ! i = W_count l"
      "s' = s\<lparr>machine := add_Execs (machine s), workers := (workers s)[i := W_run l]\<rparr>"
  | (RunNil) l where "workers s ! i = W_run l" "run_handler (machine s) l = None"
      "s' = s\<lparr>ran := ran s @ [l], workers := (workers s)[i := W_done l]\<rparr>"
  | (RunRes) l res where "workers s ! i = W_run l" "run_handler (machine s) l = Some res"
      "s' = s\<lparr>ran := ran s @ [l], workers := (workers s)[i := W_result l res]\<rparr>"
  | (Tally) l res where "workers s ! i = W_result l res"
      "s' = s\<lparr>machine := add_Results (machine s), workers := (workers s)[i := W_send l res]\<rparr>"
  | (Panic) l where "workers s ! i = W_done l" "wait (machine s) = 0" "s' = s\<lparr>panicked := True\<rparr>"
  | (Done) l where "workers s ! i = W_done l" "wait (machine s) \<noteq> 0"
      "s' = s\<lparr>machine := (machine s)\<lparr>wait := wait (machine s) - 1\<rparr>,
         completed := completed s @ [l], workers := (workers s)[i := W_recv]\<rparr>"
  using assms
  by (cases "(i, s, workers s ! i)" rule: work_step.cases) (auto split: option.splits if_splits)

lemma step_cases:
  assumes "step en e s = Some s'"
  obtains
    (Main) "e = Main" "main_step en s (main s) = Some s'"
  | (Recv) i l ls where "e = Recv i" "i < length (workers s)" "main s = Sending l ls"
      "workers s ! i = W_recv"
      "s' = s\<lparr>workers := (workers s)[i := W_count l], main := Pumping ls\<rparr>"
  | (Work) i where "e = Work i" "i < length (workers s)" "work_step i s (workers s ! i) = Some s'"
  | (Deliver) i l res where "e = Deliver i" "i < length (workers s)" "workers s ! i = W_send l res"
      "collector s = C_recv"
      "s' = s\<lparr>workers := (workers s)[i := W_done l], collector := C_handle res\<rparr>"
  | (Handle) res where "e = Handle" "collector s = C_handle res"
      "s' = s\<lparr>handled := handled s @ [res], collector := C_recv\<rparr>"
  using assms
  by (cases e)
    (auto simp: step_def recv_step_def deliver_step_def handle_step_def
      split: if_splits pc.splits wstate.splits cstate.splits)

lemma tally_ge:
  fixes f :: "'r wstate \<Rightarrow> nat"
  shows "i < length (workers s) \<Longrightarrow> f (workers s ! i) \<le> tally f s"
  unfolding tally_def by (metis length_map nth_map elem_le_sum_list)

lemma stmt_simps [simp]:
  "Stats (add_Execs m) = (Stats m)\<lparr>Execs := Execs (Stats m) + 1\<rparr>"
  "consumers (add_Execs m) = consumers m" "filename (add_Execs m) = filename m"
  "wait (add_Execs m) = wait m" "run_handler (add_Execs m) = run_handler m"
  "Stats (add_Results m) = (Stats m)\<lparr>Results := Results (Stats m) + 1\<rparr>"
  "consumers (add_Results m) = consumers m" "filename (add_Results m) = filename m"
  "wait (add_Results m) = wait m" "run_handler (add_Results m) = run_handler m"
  "Stats (reset_Inputs m) = (Stats m)\<lparr>Inputs := 0\<rparr>"
  "consumers (reset_Inputs m) = consumers m" "filename (reset_Inputs m) = filename m"
  "wait (reset_Inputs m) = wait m" "run_handler (reset_Inputs m) = run_handler m"
  "Stats (incr_Inputs m) = (Stats m)\<lparr>Inputs := Inputs (Stats m) + 1\<rparr>"
  "consumers (incr_Inputs m) = consumers m" "filename (incr_Inputs m) = filename m"
  "wait (incr_Inputs m) = wait m" "run_handler (incr_Inputs m) = run_handler m"
  "Stats (stamp_Start en m) = (Stats m)\<lparr>Start := now_start en\<rparr>"
  "consumers (stamp_Start en m) = consumers m" "filename (stamp_Start en m) = filename m"
  "wait (stamp_Start en m) = wait m" "run_handler (stamp_Start en m) = run_handler m"
  "Stats (wait_Add m) = Stats m"
  "consumers (wait_Add m) = consumers m" "filename (wait_Add m) = filename m"
  "wait (wait_Add m) = wait m + 1" "run_handler (wait_Add m) = run_handler m"
  "consumers (UpdateStats en m) = consumers m" "filename (UpdateStats en m) = filename m"
  "wait (UpdateStats en m) = wait m" "run_handler (UpdateStats en m) = run_handler m"
  by (simp_all add: add_Execs_def add_Results_def reset_Inputs_def incr_Inputs_def
      stamp_Start_def wait_Add_def UpdateStats_def Let_def)

lemma tally_simps [simp]:
  "tally f (s\<lparr>machine := m\<rparr>) = tally f s" "tally f (s\<lparr>main := p\<rparr>) = tally f s"
  "tally f (s\<lparr>collector := c\<rparr>) = tally f s" "tally f (s\<lparr>submitted := xs\<rparr>) = tally f s"
  "tally f (s\<lparr>ran := xs\<rparr>) = tally f s" "tally f (s\<lparr>completed := xs\<rparr>) = tally f s"
  "tally f (s\<lparr>handled := rs\<rparr>) = tally f s" "tally f (s\<lparr>panicked := b\<rparr>) = tally f s"
  by (simp_all add: tally_def)

lemma tally_upd:
  fixes f :: "'r wstate \<Rightarrow> 'b::comm_monoid_add"
  assumes "i < length (workers s)"
  shows "tally f (s\<lparr>workers := (workers s)[i := w]\<rparr>) + f (workers s ! i) = tally f s + f w"
  using assms by (simp add: tally_def sum_list_map_update)

lemma inv_sync_main:
  assumes "main_step en s (main s) = Some s'" and "inv_sync m0 s"
  shows "inv_sync m0 s'"
  using assms(1)
proof (cases rule: main_step_cases)
  case (Spawn i)
  then have i: "i < length (workers s)" and off: "workers s ! i = W_off"
    using assms(2) by (auto simp: inv_sync_def)
  from tally_upd[OF i, of holds_job W_recv] off
  have "tally holds_job (s\<lparr>workers := (workers s)[i := W_recv]\<rparr>) = tally holds_job s" by simp
  then show ?thesis using assms(2) Spawn i off
    by (auto simp: inv_sync_def list_all_length nth_list_update tally_def)
next
  case (Spawned i)
  then show ?thesis using assms(2) by (auto simp: inv_sync_def)
qed (use assms(2) in \<open>auto simp: inv_sync_def\<close>)

lemma sum_upd:
  fixes f :: "'a \<Rightarrow> 'b::comm_monoid_add"
  shows "i < length ws \<Longrightarrow> ws ! i = w
    \<Longrightarrow> sum_list (map f (ws[i := w'])) + f w = sum_list (map f ws) + f w'"
  using sum_list_map_update[of i ws f w'] by simp

lemma inv_sync_work:
  assumes "work_step i s (workers s ! i) = Some s'" and "i < length (workers s)" and "inv_sync m0 s"
  shows "inv_sync m0 s'"
  using assms(1)
proof (cases rule: work_step_cases)
  case (Panic l)
  from tally_ge[OF assms(2), of holds_job] Panic assms(3) show ?thesis
    by (simp add: inv_sync_def)
next
  case (Exec l)
  with assms(2,3) sum_upd[of i "workers s" "W_count l" holds_job "W_run l"] show ?thesis
    by (auto simp: inv_sync_def tally_def list_all_length nth_list_update)
next
  case (RunNil l)
  with assms(2,3) sum_upd[of i "workers s" "W_run l" holds_job "W_done l"] show ?thesis
    by (auto simp: inv_sync_def tally_def list_all_length nth_list_update)
next
  case (RunRes l res)
  with assms(2,3) sum_upd[of i "workers s" "W_run l" holds_job "W_result l res"] show ?thesis
    by (auto simp: inv_sync_def tally_def list_all_length nth_list_update)
next
  case (Tally l res)
  with assms(2,3) sum_upd[of i "workers s" "W_result l res" holds_job "W_send l res"] show ?thesis
    by (auto simp: inv_sync_def tally_def list_all_length nth_list_update)
next
  case (Done l)
  with assms(2,3) sum_upd[of i "workers s" "W_done l" holds_job "W_recv"] show ?thesis
    by (auto simp: inv_sync_def tally_def list_all_length nth_list_update)
qed

lemma inv_sync_step:
  assumes "step en e s = Some s'" and "inv_sync m0 s"
  shows "inv_sync m0 s'"
  using assms(1)
proof (cases rule: step_cases)
  case Main
  then show ?thesis using inv_sync_main assms(2) by blast
next
  case (Recv i l ls)
  with assms(2) sum_upd[of i "workers s" "W_recv" holds_job "W_count l"] show ?thesis
    by (auto simp: inv_sync_def tally_def list_all_length nth_list_update)
next
  case (Work i)
  then show ?thesis using inv_sync_work assms(2) by blast
next
  case (Deliver i l res)
  with assms(2) sum_upd[of i "workers s" "W_send l res" holds_job "W_done l"] show ?thesis
    by (auto simp: inv_sync_def tally_def list_all_length nth_list_update)
next
  case (Handle res)
  with assms(2) show ?thesis by (auto simp: inv_sync_def tally_def)
qed

lemma map_filter_append: "List.map_filter f (xs @ ys) = List.map_filter f xs @ List.map_filter f ys"
  by (simp add: List.map_filter_def)

lemma map_filter_single:
  "List.map_filter f [x] = (case f x of None \<Rightarrow> [] | Some y \<Rightarrow> [y])"
  by (simp add: List.map_filter_def split: option.splits)

lemma UpdateStats_counters [simp]:
  "Execs (Stats (UpdateStats en m)) = Execs (Stats m)"
  "Results (Stats (UpdateStats en m)) = Results (Stats m)"
  "Inputs (Stats (UpdateStats en m)) = Inputs (Stats m)"
  "Start (Stats (UpdateStats en m)) = Start (Stats m)"
  by (simp_all add: UpdateStats_def Let_def)

lemma inv_logs_main:
  assumes "main_step en s (main s) = Some s'" and "inv_logs m0 s" and "inv_sync m0 s"
  shows "inv_logs m0 s'"
  using assms(1)
proof (cases rule: main_step_cases)
  case (Spawn i)
  then have i: "i < length (workers s)" and off: "workers s ! i = W_off"
    using assms(3) by (auto simp: inv_sync_def)
  note u = sum_upd[OF i off, of _ W_recv]
  from u[of running] u[of unrun] u[of counted] u[of untallied] u[of unhanded]
    u[of "done_res (run_handler m0)"] assms(2) Spawn
  show ?thesis by (simp add: inv_logs_def tally_def)
next
  case Collector
  with assms(3) have "collector s = C_off" by (simp add: inv_sync_def)
  with assms(2) Collector show ?thesis by (simp add: inv_logs_def tally_def)
qed (use assms(2) in \<open>auto simp: inv_logs_def tally_def\<close>)

lemma inv_logs_work:
  assumes "work_step i s (workers s ! i) = Some s'" and i: "i < length (workers s)"
    and "inv_logs m0 s" and "inv_sync m0 s"
  shows "inv_logs m0 s'"
  using assms(1)
proof (cases rule: work_step_cases)
  case (Panic l)
  with assms(3) show ?thesis by (simp add: inv_logs_def tally_def)
next
  case (Exec l)
  note u = sum_upd[OF i Exec(1), of _ "W_run l"]
  from u[of running] u[of unrun] u[of counted] u[of untallied] u[of unhanded]
    u[of "done_res (run_handler m0)"] assms(3) Exec
  show ?thesis by (simp add: inv_logs_def tally_def)
next
  case (RunNil l)
  note u = sum_upd[OF i RunNil(1), of _ "W_done l"]
  from assms(4) RunNil have rh: "run_handler m0 l = None" by (simp add: inv_sync_def)
  from u[of running] u[of unrun] u[of counted, symmetric] u[of untallied] u[of unhanded]
    u[of "done_res (run_handler m0)"] assms(3) RunNil rh
  show ?thesis by (simp add: inv_logs_def tally_def map_filter_append map_filter_single)
next
  case (RunRes l res)
  note u = sum_upd[OF i RunRes(1), of _ "W_result l res"]
  from assms(4) RunRes have rh: "run_handler m0 l = Some res" by (simp add: inv_sync_def)
  from u[of running] u[of unrun] u[of counted, symmetric] u[of untallied] u[of unhanded]
    u[of "done_res (run_handler m0)"] assms(3) RunRes rh
  show ?thesis by (simp add: inv_logs_def tally_def map_filter_append map_filter_single)
next
  case (Tally l res)
  note u = sum_upd[OF i Tally(1), of _ "W_send l res"]
  from u[of running] u[of unrun] u[of counted] u[of untallied, symmetric] u[of unhanded]
    u[of "done_res (run_handler m0)"] assms(3) Tally
  show ?thesis by (simp add: inv_logs_def tally_def add.assoc)
next
  case (Done l)
  note u = sum_upd[OF i Done(1), of _ "W_recv"]
  from u[of running, symmetric] u[of unrun] u[of counted] u[of untallied] u[of unhanded]
    u[of "done_res (run_handler m0)", symmetric] assms(3) Done
  show ?thesis
    by (simp add: inv_logs_def tally_def map_filter_append map_filter_single split: option.splits)
qed

lemma inv_logs_step:
  assumes "step en e s = Some s'" and "inv_logs m0 s" and "inv_sync m0 s"
  shows "inv_logs m0 s'"
  using assms(1)
proof (cases rule: step_cases)
  case Main
  then show ?thesis using inv_logs_main assms(2,3) by blast
next
  case (Recv i l ls)
  note u = sum_upd[OF Recv(2) Recv(4), of _ "W_count l"]
  from u[of running] u[of unrun] u[of counted] u[of untallied] u[of unhanded]
    u[of "done_res (run_handler m0)"] assms(2) Recv
  show ?thesis by (simp add: inv_logs_def tally_def)
next
  case (Work i)
  then show ?thesis using inv_logs_work assms(2,3) by blast
next
  case (Deliver i l res)
  note u = sum_upd[OF Deliver(2) Deliver(3), of _ "W_done l"]
  from assms(3) Deliver(2,3) have "wf_worker (run_handler m0) (W_send l res)"
    unfolding inv_sync_def list_all_length by metis
  then have rh: "run_handler m0 l = Some res" by simp
  from u[of running] u[of unrun] u[of counted] u[of untallied] u[of unhanded, symmetric]
    u[of "done_res (run_handler m0)"] assms(2) Deliver rh
  show ?thesis by (simp add: inv_logs_def tally_def)
next
  case (Handle res)
  with assms(2) show ?thesis by (simp add: inv_logs_def tally_def)
qed

lemma finalized_UpdateStats: "finalized en (Stats (UpdateStats en m))"
  by (simp add: finalized_def UpdateStats_def Let_def)

lemma phase_inv_main:
  assumes "main_step en s (main s) = Some s'" and "phase_inv en m0 s (main s)" and "inv_sync m0 s"
  shows "phase_inv en m0 s' (main s')"
  using assms(1)
proof (cases rule: main_step_cases)
  case (Update)
  then show ?thesis using assms(2) by (simp add: finalized_UpdateStats frame_def)
next
  case (Spawn i)
  then have i: "i < length (workers s)" and off: "workers s ! i = W_off"
    using assms(3) by (auto simp: inv_sync_def)
  from sum_upd[OF i off, of holds_job W_recv] Spawn assms(2)
  show ?thesis by (simp add: quiet_def frame_def tally_def)
qed (use assms(2,3) in \<open>auto simp: quiet_def frame_def inv_sync_def opened_def count_of_def
     to_submit_def start_of_def tally_def\<close>)

lemma idle_no_work:
  assumes "tally holds_job s = 0" and "i < length (workers s)"
  shows "work_step i s (workers s ! i) = None"
proof -
  from tally_ge[OF assms(2), of holds_job] assms(1) have "holds_job (workers s ! i) = 0" by simp
  then show ?thesis by (cases "workers s ! i") simp_all
qed

lemma idle_no_send:
  assumes "tally holds_job s = 0" and "i < length (workers s)"
  shows "workers s ! i \<noteq> W_send l res"
proof -
  from tally_ge[OF assms(2), of holds_job] assms(1) have "holds_job (workers s ! i) = 0" by simp
  then show ?thesis by (cases "workers s ! i") simp_all
qed

lemma phase_inv_cong:
  assumes "phase_inv en m0 s p" and "\<not> tally holds_job s = 0"
    and "submitted s' = submitted s"
    and "Stop (Stats (machine s')) = Stop (Stats (machine s))"
    and "Total (Stats (machine s')) = Total (Stats (machine s))"
    and "Eps (Stats (machine s')) = Eps (Stats (machine s))"
    and "Progress (Stats (machine s')) = Progress (Stats (machine s))"
    and "Inputs (Stats (machine s')) = Inputs (Stats (machine s))"
    and "Start (Stats (machine s')) = Start (Stats (machine s))"
    and "wait (machine s) = size (sending p) + tally holds_job s"
  shows "phase_inv en m0 s' p"
  using assms by (cases p) (simp_all add: quiet_def frame_def)

lemma phase_inv_work:
  assumes w: "work_step i s (workers s ! i) = Some s'" and i: "i < length (workers s)"
    and p: "phase_inv en m0 s (main s)" and y: "inv_sync m0 s"
  shows "phase_inv en m0 s' (main s')"
proof -
  from w i idle_no_work[of s i] have busy: "\<not> tally holds_job s = 0" by auto
  from y have wt: "wait (machine s) = size (sending (main s)) + tally holds_job s"
    by (simp add: inv_sync_def)
  from w have "main s' = main s" by (cases rule: work_step_cases) simp_all
  moreover from w have "phase_inv en m0 s' (main s)"
    by (cases rule: work_step_cases) (rule phase_inv_cong[OF p busy _ _ _ _ _ _ _ wt]; simp)+
  ultimately show ?thesis by simp
qed

lemma phase_inv_step:
  assumes "step en e s = Some s'" and p: "phase_inv en m0 s (main s)" and y: "inv_sync m0 s"
  shows "phase_inv en m0 s' (main s')"
  using assms(1)
proof (cases rule: step_cases)
  case Main
  then show ?thesis using phase_inv_main p y by blast
next
  case (Recv i l ls)
  with p show ?thesis by (simp add: frame_def)
next
  case (Work i)
  then show ?thesis using phase_inv_work p y by blast
next
  case (Deliver i l res)
  from Deliver(2,3) idle_no_send[of s i l res] have busy: "\<not> tally holds_job s = 0" by auto
  from y have wt: "wait (machine s) = size (sending (main s)) + tally holds_job s"
    by (simp add: inv_sync_def)
  have "phase_inv en m0 s' (main s)"
    by (rule phase_inv_cong[OF p busy _ _ _ _ _ _ _ wt]) (simp_all add: Deliver)
  then show ?thesis by (simp add: Deliver)
next
  case (Handle res)
  have "phase_inv en m0 (s\<lparr>handled := handled s @ [res], collector := C_recv\<rparr>) (main s)"
    using p Handle(2) by (cases "main s") (simp_all add: quiet_def frame_def tally_def)
  then show ?thesis by (simp add: Handle)
qed

lemma inv_step: "step en e s = Some s' \<Longrightarrow> inv en m0 s \<Longrightarrow> inv en m0 s'"
  unfolding inv_def using inv_sync_step inv_logs_step phase_inv_step by blast

lemma inv_exec: "exec en es s = Some s' \<Longrightarrow> inv en m0 s \<Longrightarrow> inv en m0 s'"
proof (induction es arbitrary: s)
  case Nil
  then show ?case by simp
next
  case (Cons e es)
  then show ?case by (auto split: option.splits dest: inv_step)
qed

lemma sum_list_replicate_zero:
  "sum_list (replicate n (0::'b::comm_monoid_add)) = 0"
  by (induction n) simp_all

lemma inv_boot: "wait m = 0 \<Longrightarrow> inv en m (boot m)"
  using sum_list_replicate_zero[of "consumers m", where 'b = "string multiset"]
    sum_list_replicate_zero[of "consumers m", where 'b = "'a multiset"]
  by (simp add: inv_def inv_sync_def inv_logs_def boot_def quiet_def frame_def tally_def
      list_all_length map_replicate_const sum_list_replicate List.map_filter_def)

lemma NewMachine_wait: "NewMachine ncpu c f sess rh = Inr m \<Longrightarrow> wait m = 0"
  by (auto simp: NewMachine_def Let_def split: option.splits)

lemma NewMachine_Inr:
  assumes "NewMachine ncpu c path sess rh = Inr m"
  obtains se where "sess = Some se" "filename m = path" "run_handler m = rh" "wait m = 0"
    "consumers m = (if c \<le> 0 then nat (ncpu * 2) else nat c)"
    "Stats m = (case Session.Stats se of None \<Rightarrow> zero_Statistics
                | Some st \<Rightarrow> if 0 < Execs st then st else zero_Statistics)"
  using assms by (cases sess) (auto simp: NewMachine_def Let_def)

lemma reach_inv:
  assumes "NewMachine ncpu c path sess rh = Inr m" and "exec en es (boot m) = Some s"
  shows "inv en m s"
  using assms inv_exec inv_boot NewMachine_wait by blast

lemma idle_sum:
  fixes f :: "'r wstate \<Rightarrow> 'b::comm_monoid_add"
  assumes "\<And>w. holds_job w = 0 \<Longrightarrow> f w = 0"
  shows "sum_list (map holds_job ws) = 0 \<Longrightarrow> sum_list (map f ws) = 0"
  by (induction ws) (auto simp: assms)

lemma idle_tally:
  fixes f :: "'r wstate \<Rightarrow> 'b::comm_monoid_add"
  assumes "tally holds_job s = 0" and "\<And>w. holds_job w = 0 \<Longrightarrow> f w = 0"
  shows "tally f s = 0"
  using assms idle_sum[of f "workers s"] by (simp add: tally_def)

lemma holds_job_0: "holds_job w = 0 \<Longrightarrow> w = W_off \<or> w = W_recv"
  by (cases w) simp_all

lemma idle_logs:
  assumes "inv_sync m0 s" and "inv_logs m0 s" and "wait (machine s) = 0"
  shows "mset (ran s) = mset (submitted s)" and "mset (completed s) = mset (submitted s)"
    and "Execs (Stats (machine s)) = Execs (Stats m0) + of_nat (length (submitted s))"
    and "Results (Stats (machine s))
         = Results (Stats m0) + of_nat (length (List.map_filter (run_handler m0) (ran s)))"
    and "mset (List.map_filter (run_handler m0) (ran s)) = mset (handled s) + cheld (collector s)"
proof -
  from assms(1,3) have idle: "tally holds_job s = 0" and snd: "sending (main s) = {#}"
    by (simp_all add: inv_sync_def)
  have z: "tally running s = {#}" "tally unrun s = {#}" "tally counted s = 0"
    "tally untallied s = 0" "tally unhanded s = {#}"
    by (rule idle_tally[OF idle]; drule holds_job_0; auto)+
  from assms(2) z snd show a: "mset (ran s) = mset (submitted s)"
    and "mset (completed s) = mset (submitted s)" by (simp_all add: inv_logs_def)
  from a have "length (ran s) = length (submitted s)" by (metis size_mset)
  with assms(2) z show "Execs (Stats (machine s)) = Execs (Stats m0) + of_nat (length (submitted s))"
    by (simp add: inv_logs_def)
  from assms(2) z show "Results (Stats (machine s))
         = Results (Stats m0) + of_nat (length (List.map_filter (run_handler m0) (ran s)))"
    by (simp add: inv_logs_def)
  from assms(2) z show "mset (List.map_filter (run_handler m0) (ran s)) = mset (handled s) + cheld (collector s)"
    by (simp add: inv_logs_def)
qed

lemma skip_loop_drop: "n \<noteq> 0 \<Longrightarrow> skip_loop n ls = drop (unat n) ls"
proof (induction ls arbitrary: n)
  case Nil
  then show ?case by simp
next
  case (Cons l ls)
  from Cons.prems have pos: "0 < unat n" by (simp add: unat_gt_0)
  show ?case
  proof (cases "n - 1 = 0")
    case True
    then have "n = 1" by simp
    then show ?thesis by simp
  next
    case False
    have "unat (n - 1) = unat n - 1" using Cons.prems by (simp add: unat_minus_one)
    with Cons.IH[OF False] False pos show ?thesis by (simp add: drop_Cons')
  qed
qed

section \<open>More facts about runs\<close>

lemma quiet_workers:
  assumes y: "inv_sync m0 s" and q: "tally holds_job s = 0"
    and sp: "\<And>j. spawned (main s) j"
  shows "workers s = replicate (consumers m0) W_recv"
proof (rule nth_equalityI)
  from y show "length (workers s) = length (replicate (consumers m0) W_recv)"
    by (simp add: inv_sync_def)
next
  fix i assume i: "i < length (workers s)"
  from tally_ge[OF i, of holds_job] q have "holds_job (workers s ! i) = 0" by simp
  then have "workers s ! i = W_off \<or> workers s ! i = W_recv" by (rule holds_job_0)
  moreover from y i sp have "workers s ! i \<noteq> W_off" by (simp add: inv_sync_def)
  ultimately show "workers s ! i = replicate (consumers m0) W_recv ! i"
    using i y by (simp add: inv_sync_def)
qed

lemma quiet_collector:
  assumes y: "inv_sync m0 s" and q: "cheld (collector s) = {#}" and c: "collecting (main s)"
  shows "collector s = C_recv"
  using assms by (cases "collector s") (simp_all add: inv_sync_def)

lemma submitted_pumping:
  assumes p: "phase_inv en m0 s (main s)" and sub: "submitted s \<noteq> []"
  shows "opened en m0 \<and> Inputs (Stats (machine s)) = count_of en m0"
  using assms by (cases "main s") (simp_all add: quiet_def frame_def)

lemma submitted_counted:
  assumes p: "phase_inv en m0 s (main s)" and sub: "submitted s \<noteq> []"
  shows "counting_done (main s)"
  using assms by (cases "main s") (simp_all add: quiet_def)

lemma fresh_execs_le:
  fixes e0 :: uint64
  assumes "unat e0 + n \<le> k" and "k < 2 ^ 64"
  shows "e0 + of_nat n \<le> (of_nat k :: uint64)"
proof -
  from assms have n: "unat (of_nat n :: uint64) = n" and k: "unat (of_nat k :: uint64) = k"
    by (simp_all add: unat_of_nat)
  from assms n have "unat e0 + unat (of_nat n :: uint64) < 2 ^ LENGTH(64)" by simp
  then have "unat (e0 + of_nat n) = unat e0 + unat (of_nat n :: uint64)"
    by (simp only: unat_add_lem)
  with n k assms show ?thesis by (simp add: word_le_nat_alt)
qed

lemma counted_le_unrun: "sum_list (map counted ws) \<le> size (sum_list (map unrun ws))"
proof (induction ws)
  case Nil
  then show ?case by simp
next
  case (Cons w ws)
  have "counted w \<le> size (unrun w)" by (cases w) simp_all
  with Cons show ?case by simp
qed

lemma ran_le_submitted:
  assumes "inv_logs m0 s"
  shows "length (ran s) + tally counted s \<le> length (submitted s)"
proof -
  from assms have "size (mset (submitted s))
      = size (mset (completed s) + tally running s + tally unrun s + sending (main s))"
    and "size (mset (ran s)) = size (mset (completed s) + tally running s)"
    by (simp_all add: inv_logs_def)
  with counted_le_unrun[of "workers s"] show ?thesis by (simp add: tally_def)
qed

lemma exec_append:
  "exec en (xs @ ys) s = (case exec en xs s of None \<Rightarrow> None | Some s' \<Rightarrow> exec en ys s')"
  by (induction xs arbitrary: s) (auto split: option.splits)

lemma main_run_trans:
  assumes "exec en (replicate a Main) s = Some s'" and "exec en (replicate b Main) s' = Some s''"
  shows "exec en (replicate (a + b) Main) s = Some s''"
  using assms by (simp add: replicate_add exec_append)

lemma main_run_1:
  assumes "\<not> panicked s" and "main_step en s (main s) = Some s'"
  shows "exec en (replicate 1 Main) s = Some s'"
  using assms by (simp add: step_def)

lemma spawn_run:
  assumes "\<not> panicked s" and "main s = Spawning i" and "d = consumers (machine s) - i"
  shows "\<exists>s'. exec en (replicate (d + 1) Main) s = Some s' \<and> main s' = SpawnOut
     \<and> machine s' = machine s \<and> \<not> panicked s'"
  using assms
proof (induction d arbitrary: s i)
  case 0
  then have "main_step en s (main s) = Some (s\<lparr>main := SpawnOut\<rparr>)" by simp
  from main_run_1[OF "0.prems"(1) this] "0.prems" show ?case by auto
next
  case (Suc d)
  let ?s1 = "s\<lparr>workers := (workers s)[i := W_recv], main := Spawning (i + 1)\<rparr>"
  from Suc.prems have "main_step en s (main s) = Some ?s1" by simp
  from main_run_1[OF Suc.prems(1) this] have r1: "exec en (replicate 1 Main) s = Some ?s1" .
  from Suc.prems have "\<not> panicked ?s1" "main ?s1 = Spawning (i + 1)"
    "d = consumers (machine ?s1) - (i + 1)" by simp_all
  from Suc.IH[OF this] obtain s' where r2: "exec en (replicate (d + 1) Main) ?s1 = Some s'"
    and r: "main s' = SpawnOut" "machine s' = machine s" "\<not> panicked s'" by auto
  from main_run_trans[OF r1 r2] r show ?case by auto
qed

lemma count_run:
  assumes "\<not> panicked s" and "main s = Counting rest"
  shows "\<exists>s'. exec en (replicate (length rest + 1) Main) s = Some s' \<and> main s' = Reopen
     \<and> filename (machine s') = filename (machine s) \<and> \<not> panicked s'"
  using assms
proof (induction rest arbitrary: s)
  case Nil
  then have "main_step en s (main s) = Some (s\<lparr>main := Reopen\<rparr>)" by simp
  from main_run_1[OF Nil(1) this] Nil show ?case by auto
next
  case (Cons l rest)
  let ?s1 = "s\<lparr>machine := incr_Inputs (machine s), main := Counting rest\<rparr>"
  from Cons.prems have "main_step en s (main s) = Some ?s1" by simp
  from main_run_1[OF Cons.prems(1) this] have r1: "exec en (replicate 1 Main) s = Some ?s1" .
  from Cons.prems have "\<not> panicked ?s1" "main ?s1 = Counting rest" by simp_all
  from Cons.IH[OF this] obtain s' where r2: "exec en (replicate (length rest + 1) Main) ?s1 = Some s'"
    and r: "main s' = Reopen" "filename (machine s') = filename (machine s)" "\<not> panicked s'"
    by auto
  from main_run_trans[OF r1 r2] r show ?case by (auto simp: add.commute)
qed

lemma open_run:
  "\<exists>s'. exec en (replicate (consumers m + 4) Main) (boot m) = Some s' \<and> main s' = OpenCount
     \<and> filename (machine s') = filename m \<and> \<not> panicked s'"
proof -
  let ?s1 = "(boot m)\<lparr>main := Spawning 0\<rparr>"
  have r1: "exec en (replicate 1 Main) (boot m) = Some ?s1"
    by (rule main_run_1) (simp_all add: boot_def)
  have "\<not> panicked ?s1" "main ?s1 = Spawning 0" "consumers m = consumers (machine ?s1) - 0"
    by (simp_all add: boot_def)
  from spawn_run[OF this] obtain s2 where r2: "exec en (replicate (consumers m + 1) Main) ?s1 = Some s2"
    and s2: "main s2 = SpawnOut" "machine s2 = m" "\<not> panicked s2"
    by (auto simp: boot_def)
  let ?s3 = "s2\<lparr>collector := C_recv, main := ResetInputs\<rparr>"
  let ?s4 = "?s3\<lparr>machine := reset_Inputs (machine ?s3), main := OpenCount\<rparr>"
  from s2 have r3: "exec en (replicate 1 Main) s2 = Some ?s3" by (intro main_run_1) simp_all
  from s2 have r4: "exec en (replicate 1 Main) ?s3 = Some ?s4" by (intro main_run_1) simp_all
  from main_run_trans[OF main_run_trans[OF main_run_trans[OF r1 r2] r3] r4]
  have "exec en (replicate (consumers m + 4) Main) (boot m) = Some ?s4"
    by (simp add: add.commute add.left_commute numeral_Bit0)
  with s2 show ?thesis by simp
qed

lemma failing_run:
  assumes "LineReader (fs_count en) (filename m) 0 = Inl err
    \<or> (\<exists>ls. LineReader (fs_count en) (filename m) 0 = Inr ls)
      \<and> LineReader (fs_run en) (filename m) 0 = Inl err"
  shows "\<exists>n. map_option main (exec en (replicate n Main) (boot m)) = Some (Failed err)"
proof -
  from open_run[of en m] obtain s0 where r0: "exec en (replicate (consumers m + 4) Main) (boot m) = Some s0"
    and s0: "main s0 = OpenCount" "filename (machine s0) = filename m" "\<not> panicked s0" by auto
  from assms show ?thesis
  proof
    assume a: "LineReader (fs_count en) (filename m) 0 = Inl err"
    from s0 a have "exec en (replicate 1 Main) s0 = Some (s0\<lparr>main := Failed err\<rparr>)"
      by (intro main_run_1) simp_all
    from main_run_trans[OF r0 this] have "map_option main
      (exec en (replicate (consumers m + 4 + 1) Main) (boot m)) = Some (Failed err)" by simp
    then show ?thesis by blast
  next
    assume "(\<exists>ls. LineReader (fs_count en) (filename m) 0 = Inr ls)
      \<and> LineReader (fs_run en) (filename m) 0 = Inl err"
    then obtain ls where a: "LineReader (fs_count en) (filename m) 0 = Inr ls"
      and b: "LineReader (fs_run en) (filename m) 0 = Inl err" by auto
    let ?s1 = "s0\<lparr>main := Counting ls\<rparr>"
    from s0 a have r1: "exec en (replicate 1 Main) s0 = Some ?s1" by (intro main_run_1) simp_all
    from s0 have "\<not> panicked ?s1" "main ?s1 = Counting ls" by simp_all
    from count_run[OF this] obtain s2 where r2: "exec en (replicate (length ls + 1) Main) ?s1 = Some s2"
      and s2: "main s2 = Reopen" "filename (machine s2) = filename m" "\<not> panicked s2"
      using s0 by auto
    from s2 b have r3: "exec en (replicate 1 Main) s2 = Some (s2\<lparr>main := Failed err\<rparr>)"
      by (intro main_run_1) simp_all
    from main_run_trans[OF main_run_trans[OF main_run_trans[OF r0 r1] r2] r3]
    have "map_option main (exec en (replicate (consumers m + 4 + 1 + (length ls + 1) + 1) Main)
      (boot m)) = Some (Failed err)" by simp
    then show ?thesis by blast
  qed
qed

lemma failing_quiet:
  assumes p: "phase_inv en m0 s (main s)"
    and fail: "LineReader (fs_count en) (filename m0) 0 = Inl err
    \<or> (\<exists>ls. LineReader (fs_count en) (filename m0) 0 = Inr ls)
      \<and> LineReader (fs_run en) (filename m0) 0 = Inl err"
  shows "quiet m0 s \<and> main s \<noteq> Started \<and> main s \<noteq> Waited \<and> main s \<noteq> Finalized
    \<and> (\<forall>e. main s = Failed e \<longrightarrow> e = err)"
  using assms by (cases "main s") (auto simp: opened_def)

subsection \<open>Some schedule completes\<close>

text \<open>
  With at least one worker and a file that opens, some schedule takes the machine from
  \<open>Start\<close> to the return of \<open>Wait\<close>: the main goroutine runs alone up to the submission
  loop, then worker 0 and the collector take each line through in turn. So the states the
  claims below speak of, those in which \<open>Wait\<close> has returned, exist for every wordlist.
\<close>

lemma exec_trans:
  assumes "exec en xs s = Some s'" and "exec en ys s' = Some s''"
  shows "exec en (xs @ ys) s = Some s''"
  using assms by (simp add: exec_append)

lemma job_run:
  assumes np: "\<not> panicked s" and m: "main s = Pumping (l # rest)"
    and w: "0 < length (workers s)" "workers s ! 0 = W_recv" and c: "collector s = C_recv"
  shows "\<exists>es s'. exec en es s = Some s' \<and> \<not> panicked s' \<and> main s' = Pumping rest
     \<and> 0 < length (workers s') \<and> workers s' ! 0 = W_recv \<and> collector s' = C_recv
     \<and> wait (machine s') = wait (machine s)"
proof (cases "run_handler (machine s) l")
  case None
  let ?s' = "s\<lparr>machine := add_Execs (wait_Add (machine s))\<lparr>wait := wait (machine s)\<rparr>,
     submitted := submitted s @ [l], main := Pumping rest,
     workers := (workers s)[0 := W_recv], ran := ran s @ [l], completed := completed s @ [l]\<rparr>"
  from assms None have "exec en [Main, Recv 0, Work 0, Work 0, Work 0] s = Some ?s'"
    by (simp add: step_def recv_step_def add_Execs_def wait_Add_def)
  moreover from assms have "\<not> panicked ?s' \<and> main ?s' = Pumping rest
     \<and> 0 < length (workers ?s') \<and> workers ?s' ! 0 = W_recv \<and> collector ?s' = C_recv
     \<and> wait (machine ?s') = wait (machine s)" by simp
  ultimately show ?thesis by blast
next
  case (Some res)
  let ?s' = "s\<lparr>machine := add_Results (add_Execs (wait_Add (machine s)))\<lparr>wait := wait (machine s)\<rparr>,
     submitted := submitted s @ [l], main := Pumping rest,
     workers := (workers s)[0 := W_recv], ran := ran s @ [l], completed := completed s @ [l],
     handled := handled s @ [res], collector := C_recv\<rparr>"
  from assms Some
  have "exec en [Main, Recv 0, Work 0, Work 0, Work 0, Deliver 0, Handle, Work 0] s = Some ?s'"
    by (simp add: step_def recv_step_def deliver_step_def handle_step_def add_Execs_def
        add_Results_def wait_Add_def)
  moreover from assms have "\<not> panicked ?s' \<and> main ?s' = Pumping rest
     \<and> 0 < length (workers ?s') \<and> workers ?s' ! 0 = W_recv \<and> collector ?s' = C_recv
     \<and> wait (machine ?s') = wait (machine s)" by simp
  ultimately show ?thesis by blast
qed

lemma pump_run:
  assumes "\<not> panicked s" and "main s = Pumping rest"
    and "0 < length (workers s)" "workers s ! 0 = W_recv" and "collector s = C_recv"
  shows "\<exists>es s'. exec en es s = Some s' \<and> \<not> panicked s' \<and> main s' = Pumping []
     \<and> wait (machine s') = wait (machine s)"
  using assms
proof (induction rest arbitrary: s)
  case Nil
  then have "exec en [] s = Some s" by simp
  with Nil show ?case by blast
next
  case (Cons l rest)
  from job_run[OF Cons.prems, of en] obtain es s1 where r1: "exec en es s = Some s1"
    and s1: "\<not> panicked s1" "main s1 = Pumping rest" "0 < length (workers s1)"
      "workers s1 ! 0 = W_recv" "collector s1 = C_recv"
    and w1: "wait (machine s1) = wait (machine s)" by blast
  from Cons.IH[OF s1] obtain es' s' where r2: "exec en es' s1 = Some s'"
    and s': "\<not> panicked s'" "main s' = Pumping []" "wait (machine s') = wait (machine s1)"
    by blast
  from exec_trans[OF r1 r2] s' w1 show ?case by auto
qed

lemma skip_run:
  assumes "\<not> panicked s" and "main s = Skipping n rest"
  shows "\<exists>k s' rest'. exec en (replicate k Main) s = Some s' \<and> \<not> panicked s'
     \<and> main s' = Pumping rest'"
  using assms
proof (induction rest arbitrary: s n)
  case Nil
  then have "main_step en s (main s) = Some (s\<lparr>main := Pumping []\<rparr>)" by simp
  from main_run_1[OF Nil(1) this] Nil show ?case by (intro exI[of _ 1]) auto
next
  case (Cons l rest)
  show ?case
  proof (cases "n - 1 = 0")
    case True
    with Cons.prems have "main_step en s (main s) = Some (s\<lparr>main := Pumping rest\<rparr>)" by simp
    from main_run_1[OF Cons.prems(1) this] Cons.prems show ?thesis by (intro exI[of _ 1]) auto
  next
    case False
    let ?s1 = "s\<lparr>main := Skipping (n - 1) rest\<rparr>"
    from False Cons.prems have "main_step en s (main s) = Some ?s1" by simp
    from main_run_1[OF Cons.prems(1) this] have r1: "exec en (replicate 1 Main) s = Some ?s1" .
    from Cons.prems have "\<not> panicked ?s1" "main ?s1 = Skipping (n - 1) rest" by simp_all
    from Cons.IH[OF this] obtain k s' rest' where "exec en (replicate k Main) ?s1 = Some s'"
      "\<not> panicked s'" "main s' = Pumping rest'" by blast
    with main_run_trans[OF r1 this(1)] show ?thesis by blast
  qed
qed

lemma pumping_run:
  assumes "\<not> isl (LineReader (fs_count en) (filename m) 0)"
    and "\<not> isl (LineReader (fs_run en) (filename m) 0)"
  shows "\<exists>n s rest. exec en (replicate n Main) (boot m) = Some s \<and> \<not> panicked s
     \<and> main s = Pumping rest"
proof -
  from assms obtain ls1 ls2 where a: "LineReader (fs_count en) (filename m) 0 = Inr ls1"
    and b: "LineReader (fs_run en) (filename m) 0 = Inr ls2"
    by (metis sum.collapse(2))
  from open_run[of en m] obtain s0 where r0: "exec en (replicate (consumers m + 4) Main) (boot m) = Some s0"
    and s0: "main s0 = OpenCount" "filename (machine s0) = filename m" "\<not> panicked s0" by auto
  let ?s1 = "s0\<lparr>main := Counting ls1\<rparr>"
  from s0 a have r1: "exec en (replicate 1 Main) s0 = Some ?s1" by (intro main_run_1) simp_all
  from s0 have "\<not> panicked ?s1" "main ?s1 = Counting ls1" by simp_all
  from count_run[OF this] obtain s2 where r2: "exec en (replicate (length ls1 + 1) Main) ?s1 = Some s2"
    and s2: "main s2 = Reopen" "filename (machine s2) = filename m" "\<not> panicked s2"
    using s0 by auto
  let ?s3 = "s2\<lparr>main := CheckResume ls2\<rparr>"
  from s2 b have r3: "exec en (replicate 1 Main) s2 = Some ?s3" by (intro main_run_1) simp_all
  note r03 = main_run_trans[OF main_run_trans[OF main_run_trans[OF r0 r1] r2] r3]
  show ?thesis
  proof (cases "0 < Execs (Stats (machine s2))")
    case True
    let ?s4 = "?s3\<lparr>main := Skipping (Execs (Stats (machine s2))) ls2\<rparr>"
    from True s2 have r4: "exec en (replicate 1 Main) ?s3 = Some ?s4" by (intro main_run_1) simp_all
    from s2 have "\<not> panicked ?s4" "main ?s4 = Skipping (Execs (Stats (machine s2))) ls2" by simp_all
    from skip_run[OF this] obtain k s' rest' where "exec en (replicate k Main) ?s4 = Some s'"
      "\<not> panicked s'" "main s' = Pumping rest'" by blast
    with main_run_trans[OF main_run_trans[OF r03 r4] this(1)] show ?thesis by blast
  next
    case False
    let ?s4 = "?s3\<lparr>machine := stamp_Start en (machine s2), main := Pumping ls2\<rparr>"
    from False s2 have r4: "exec en (replicate 1 Main) ?s3 = Some ?s4" by (intro main_run_1) simp_all
    from s2 have "\<not> panicked ?s4" "main ?s4 = Pumping ls2" by simp_all
    with main_run_trans[OF r03 r4] show ?thesis by blast
  qed
qed

lemma main_only_submits_nothing:
  assumes "exec en (replicate n Main) s = Some s'" and "submitted s = []"
    and "\<And>l ls. main s' \<noteq> Sending l ls"
  shows "submitted s' = []"
  using assms
proof (induction n arbitrary: s)
  case 0
  then show ?case by simp
next
  case (Suc n)
  from Suc.prems(1) obtain s1 where st: "step en Main s = Some s1"
    and rest: "exec en (replicate n Main) s1 = Some s'" by (auto split: option.splits)
  from st have ms: "main_step en s (main s) = Some s1" by (simp add: step_def split: if_splits)
  from ms show ?case
  proof (cases rule: main_step_cases)
    case (Add l ls)
    show ?thesis
    proof (cases n)
      case 0
      with rest Add have "main s' = Sending l ls" by auto
      with Suc.prems(3)[of l ls] show ?thesis by blast
    next
      case (Suc k)
      from Add have "step en Main s1 = None" by (simp add: step_def)
      with rest Suc show ?thesis by simp
    qed
  qed (use Suc.IH[OF rest _ Suc.prems(3)] Suc.prems(2) in \<open>simp_all\<close>)
qed

lemma holds_job_size:
  "sum_list (map holds_job ws)
     = size (sum_list (map running ws)) + size (sum_list (map unrun ws))"
proof (induction ws)
  case Nil
  then show ?case by simp
next
  case (Cons w ws)
  have "holds_job w = size (running w) + size (unrun w)" by (cases w) simp_all
  with Cons show ?case by simp
qed

lemma unsubmitted_quiet:
  assumes y: "inv_sync m0 s" and l: "inv_logs m0 s" and sub: "submitted s = []"
    and st: "\<And>j. spawned (main s) j" "collecting (main s)"
  shows "workers s = replicate (consumers m0) W_recv" and "collector s = C_recv"
    and "wait (machine s) = 0"
proof -
  from l sub have e: "tally running s = {#}" "tally unrun s = {#}" "sending (main s) = {#}"
    "mset (completed s) = {#}" by (simp_all add: inv_logs_def)
  with holds_job_size[of "workers s"] have idle: "tally holds_job s = 0" by (simp add: tally_def)
  from quiet_workers[OF y idle st(1)] show "workers s = replicate (consumers m0) W_recv" .
  from y idle e show "wait (machine s) = 0" by (simp add: inv_sync_def)
  from l e have "mset (ran s) = {#}" by (simp add: inv_logs_def)
  with l have "cheld (collector s) = {#}" by (simp add: inv_logs_def List.map_filter_def)
  from quiet_collector[OF y this st(2)] show "collector s = C_recv" .
qed

lemma some_schedule_completes:
  assumes new: "NewMachine ncpu c path (Some sess) rh = Inr m"
    and workers: "0 < consumers m"
    and src: "fs_count en path = Inr ls1" "fs_run en path = Inr ls2"
  shows "\<exists>es s. exec en es (boot m) = Some s \<and> main s = Finalized"
proof -
  from new have f: "filename m = path" by (cases rule: NewMachine_Inr) simp
  with src have "\<not> isl (LineReader (fs_count en) (filename m) 0)"
    "\<not> isl (LineReader (fs_run en) (filename m) 0)" by (simp_all add: LineReader_def)
  from pumping_run[OF this] obtain n s1 rest
    where r1: "exec en (replicate n Main) (boot m) = Some s1"
      and s1: "\<not> panicked s1" "main s1 = Pumping rest" by blast
  from reach_inv[OF new r1] have y: "inv_sync m s1" and l: "inv_logs m s1"
    by (simp_all add: inv_def)
  from main_only_submits_nothing[OF r1] s1 have sub: "submitted s1 = []" by (simp add: boot_def)
  from unsubmitted_quiet[OF y l sub] s1 workers
  have q: "0 < length (workers s1)" "workers s1 ! 0 = W_recv" "collector s1 = C_recv"
    and w1: "wait (machine s1) = 0" by simp_all
  from pump_run[OF s1 q, of en] obtain es s2 where r2: "exec en es s1 = Some s2"
    and s2: "\<not> panicked s2" "main s2 = Pumping []" "wait (machine s2) = 0"
    using w1 by auto
  let ?s5 = "s2\<lparr>machine := UpdateStats en (machine s2), main := Finalized\<rparr>"
  from s2 have "exec en [Main, Main, Main] s2 = Some ?s5" by (simp add: step_def)
  from exec_trans[OF exec_trans[OF r1 r2] this]
  have "exec en ((replicate n Main @ es) @ [Main, Main, Main]) (boot m) = Some ?s5
    \<and> main ?s5 = Finalized" by simp
  then show ?thesis by blast
qed

section \<open>The example runs, evaluated\<close>

lemmas run_defs = step_def recv_step_def deliver_step_def handle_step_def boot_def
  LineReader_def add_Execs_def add_Results_def reset_Inputs_def incr_Inputs_def stamp_Start_def
  wait_Add_def UpdateStats_def Let_def Sub_def maxDuration_def minDuration_def Seconds_def
  quot_def rem_def float_of_int_def zero_Statistics_def

lemma replicate_2: "replicate 2 x = [x, x]"
  by (simp add: numeral_2_eq_2)

lemma new3: "NewMachine 1 2 ''words'' (Some fresh_session) rh3 = Inr m3"
  by (simp add: NewMachine_def fresh_session_def m3_def)

lemma new3r: "NewMachine 1 2 ''words'' (Some resumed_session) rh3 = Inr m3r"
  by (simp add: NewMachine_def resumed_session_def m3r_def prior3_def)

lemma new4: "NewMachine 1 2 ''missing'' (Some fresh_session) rh3 = Inr m4"
  by (simp add: NewMachine_def fresh_session_def m4_def)

lemma src3:
  "fs_count env3 ''words'' = Inr [''admin'', ''root'', ''guest'']"
  "fs_run env3 ''words'' = Inr [''admin'', ''root'', ''guest'']"
  by (simp_all add: env3_def fs3_def)

lemma run_race3: "exec env3 sched3 (boot m3) = Some race3"
  by (simp add: sched3_def env3_def fs3_def rh3_def m3_def race3_def stats3_def run_defs replicate_2)

lemma run_fin3: "exec env3 (sched3 @ [Handle]) (boot m3) = Some fin3"
  by (simp add: sched3_def env3_def fs3_def rh3_def m3_def race3_def fin3_def stats3_def run_defs replicate_2)

lemma run_counting3:
  "exec env3 [Main, Main, Main, Main, Main, Main, Main, Main] (boot m3) = Some counting3"
  by (simp add: env3_def fs3_def rh3_def m3_def counting3_def run_defs replicate_2)

lemma run_fin3r: "exec env3 sched3r (boot m3r) = Some fin3r"
  by (simp add: sched3r_def env3_def fs3_def rh3_def m3r_def prior3_def fin3r_def run_defs
      replicate_2)

lemma run_reset3r: "exec env3 [Main, Main, Main, Main, Main, Main] (boot m3r) = Some reset3r"
  by (simp add: env3_def fs3_def rh3_def m3r_def prior3_def reset3r_def run_defs replicate_2)

lemma run_failed4: "exec env3 [Main, Main, Main, Main, Main, Main, Main] (boot m4) = Some failed4"
  by (simp add: env3_def fs3_def rh3_def m4_def failed4_def run_defs replicate_2)

section \<open>The claims\<close>

subsection \<open>C1\<close>

text \<open>
  C1. A machine built with no prior execution count (the session has no statistics, or
  statistics with \<open>Execs = 0\<close>) runs over a wordlist \<open>ls\<close> that both passes of \<open>Start\<close>
  read. In every state in which \<open>Wait\<close> has returned, whatever the schedule, \<open>Execs\<close> equals
  \<open>Inputs\<close>, both are the number of lines, the lines were submitted once each in the
  order of the file, and \<open>run_handler\<close> was called once on each. (The wordlist need not
  even be non-empty; that \<open>Wait\<close> returns under some schedule is
  \<open>some_schedule_completes\<close>.)
\<close>

theorem C1_execs_eq_inputs:
  assumes new: "NewMachine ncpu c path (Some sess) rh = Inr m"
    and fresh: "case Session.Stats sess of None \<Rightarrow> True | Some st \<Rightarrow> Execs st = 0"
    and src: "fs_count en path = Inr ls" "fs_run en path = Inr ls"
    and run: "exec en es (boot m) = Some s"
    and fin: "main s = Finalized"
  shows "Execs (Stats (machine s)) = Inputs (Stats (machine s))
    \<and> Inputs (Stats (machine s)) = of_nat (length ls)
    \<and> submitted s = ls \<and> mset (ran s) = mset ls"
proof -
  from new obtain "filename m = path" and st: "Stats m = zero_Statistics"
    using fresh by (cases rule: NewMachine_Inr) (auto split: option.splits)
  then have e0: "Execs (Stats m) = 0" by (simp add: zero_Statistics_def)
  from reach_inv[OF new run] have y: "inv_sync m s" and l: "inv_logs m s"
    and p: "phase_inv en m s Finalized" using fin by (simp_all add: inv_def)
  from p have w: "wait (machine s) = 0" and sub: "submitted s = to_submit en m"
    and inp: "Inputs (Stats (machine s)) = count_of en m" by simp_all
  from src \<open>filename m = path\<close> e0 have ts: "to_submit en m = ls" and co: "count_of en m = of_nat (length ls)"
    by (simp_all add: to_submit_def count_of_def LineReader_def)
  from idle_logs(1,3)[OF y l w] e0 sub ts inp co show ?thesis by simp
qed

text \<open>C1 at the run \<open>sched3\<close> of the three-line wordlist, the handler call included.\<close>

theorem C1_witness:
  "exec env3 (sched3 @ [Handle]) (boot m3) = Some fin3 \<and> main fin3 = Finalized
   \<and> Execs (Stats (machine fin3)) = Inputs (Stats (machine fin3))
   \<and> Inputs (Stats (machine fin3)) = 3
   \<and> submitted fin3 = [''admin'', ''root'', ''guest'']"
proof -
  have f: "case Session.Stats fresh_session of None \<Rightarrow> True | Some st \<Rightarrow> Execs st = 0"
    by (simp add: fresh_session_def)
  have s: "fs_count env3 ''words'' = Inr [''admin'', ''root'', ''guest'']"
    "fs_run env3 ''words'' = Inr [''admin'', ''root'', ''guest'']"
    by (simp_all add: env3_def fs3_def)
  have m: "main fin3 = Finalized" by (simp add: fin3_def race3_def)
  from C1_execs_eq_inputs[OF new3 f s run_fin3 m] run_fin3 m show ?thesis by simp
qed

subsection \<open>C2\<close>

text \<open>
  C2. A machine seeded from a prior snapshot with \<open>Execs = k\<close>, \<open>0 < k\<close>, runs over a
  wordlist \<open>ls\<close> of at least \<open>k\<close> lines that both passes of \<open>Start\<close> read. In every state in
  which \<open>Wait\<close> has returned, the lines submitted are exactly \<open>ls\<close> without its first \<open>k\<close>
  lines, in order (so \<open>length ls - k\<close> of them), \<open>run_handler\<close> was called once on each of
  them, and \<open>Execs\<close> equals \<open>Inputs\<close>, the number of lines.
\<close>

theorem C2_resume_skips_k:
  assumes new: "NewMachine ncpu c path (Some sess) rh = Inr m"
    and prior: "Session.Stats sess = Some st" "Execs st = k" "0 < k" "unat k \<le> length ls"
    and src: "fs_count en path = Inr ls" "fs_run en path = Inr ls"
    and run: "exec en es (boot m) = Some s"
    and fin: "main s = Finalized"
  shows "submitted s = drop (unat k) ls \<and> mset (ran s) = mset (drop (unat k) ls)
    \<and> length (submitted s) = length ls - unat k
    \<and> Execs (Stats (machine s)) = Inputs (Stats (machine s))
    \<and> Inputs (Stats (machine s)) = of_nat (length ls)"
proof -
  from new obtain "filename m = path" and st: "Stats m = st"
    using prior by (cases rule: NewMachine_Inr) auto
  then have e0: "Execs (Stats m) = k" using prior by simp
  from reach_inv[OF new run] have y: "inv_sync m s" and l: "inv_logs m s"
    and p: "phase_inv en m s Finalized" using fin by (simp_all add: inv_def)
  from p have w: "wait (machine s) = 0" and sub: "submitted s = to_submit en m"
    and inp: "Inputs (Stats (machine s)) = count_of en m" by simp_all
  from prior have "k \<noteq> 0" by auto
  with src \<open>filename m = path\<close> e0 prior have ts: "to_submit en m = drop (unat k) ls"
    and co: "count_of en m = of_nat (length ls)"
    by (simp_all add: to_submit_def count_of_def LineReader_def skip_loop_drop)
  have "k + of_nat (length ls - unat k) = (of_nat (unat k + (length ls - unat k)) :: uint64)"
    by simp
  also have "\<dots> = of_nat (length ls)" using prior by simp
  finally have "k + of_nat (length ls - unat k) = (of_nat (length ls) :: uint64)" .
  with idle_logs(1,3)[OF y l w] e0 sub ts inp co show ?thesis by simp
qed

text \<open>C2 at the resumed run \<open>sched3r\<close>: with \<open>k = 2\<close> only \<open>guest\<close> is submitted.\<close>

theorem C2_witness:
  "NewMachine 1 2 ''words'' (Some resumed_session) rh3 = Inr m3r
   \<and> Session.Stats resumed_session = Some prior3 \<and> Execs prior3 = 2
   \<and> exec env3 sched3r (boot m3r) = Some fin3r \<and> main fin3r = Finalized
   \<and> submitted fin3r = [''guest''] \<and> mset (ran fin3r) = {#''guest''#}
   \<and> Execs (Stats (machine fin3r)) = Inputs (Stats (machine fin3r))
   \<and> Inputs (Stats (machine fin3r)) = 3"
proof -
  have p: "Session.Stats resumed_session = Some prior3" "Execs prior3 = 2" "0 < (2::uint64)"
    "unat (2::uint64) \<le> length [''admin'', ''root'', ''guest'']"
    by (simp_all add: resumed_session_def prior3_def)
  have m: "main fin3r = Finalized" by (simp add: fin3r_def)
  from C2_resume_skips_k[OF new3r p src3 run_fin3r m] new3r p run_fin3r m show ?thesis by simp
qed

subsection \<open>C3\<close>

text \<open>
  C3, as the code has it. \<open>inputConsumer\<close> calls \<open>m.wait.Done()\<close> right after its send on
  \<open>m.output\<close>, that is once the collector has received the result, not once the handler
  has returned. In every reachable state the results of the jobs whose \<open>Done\<close> was called
  are among the results the collector has handled or is holding to handle.
\<close>

theorem C3_done_after_handoff:
  assumes new: "NewMachine ncpu c path (Some sess) rh = Inr m"
    and run: "exec en es (boot m) = Some s"
  shows "mset (List.map_filter rh (completed s)) \<subseteq># mset (handled s) + cheld (collector s)"
proof -
  from new have rh: "run_handler m = rh" by (cases rule: NewMachine_Inr) simp
  from reach_inv[OF new run] have "inv_logs m s" by (simp add: inv_def)
  then have "mset (handled s) + cheld (collector s)
       = mset (List.map_filter rh (completed s)) + tally (done_res rh) s"
    by (simp add: inv_logs_def rh)
  then show ?thesis by simp
qed

text \<open>C3 amended, at the end of \<open>sched3\<close>: the one result is with the collector.\<close>

theorem C3_witness:
  "NewMachine 1 2 ''words'' (Some fresh_session) rh3 = Inr m3
   \<and> exec env3 sched3 (boot m3) = Some race3
   \<and> mset (List.map_filter rh3 (completed race3)) = {#''root''#}
   \<and> mset (handled race3) + cheld (collector race3) = {#''root''#}
   \<and> mset (List.map_filter rh3 (completed race3))
       \<subseteq># mset (handled race3) + cheld (collector race3)"
  using C3_done_after_handoff[OF new3 run_race3] new3 run_race3
  by (simp add: race3_def rh3_def List.map_filter_def)

text \<open>
  C3 as stated fails at the end of \<open>sched3\<close>: \<open>Done\<close> has been called for the job \<open>root\<close>,
  whose result is not nil, the counter is zero and \<open>Wait\<close> has returned, while the collector
  still holds the result and the handler has not been called.
\<close>

theorem C3_counterexample:
  "exec env3 sched3 (boot m3) = Some race3 \<and> main race3 = Finalized
   \<and> wait (machine race3) = 0 \<and> completed race3 = [''admin'', ''root'', ''guest'']
   \<and> run_handler (machine race3) ''root'' = Some ''root''
   \<and> collector race3 = C_handle ''root'' \<and> handled race3 = []
   \<and> \<not> mset (List.map_filter rh3 (completed race3)) \<subseteq># mset (handled race3)"
  using run_race3 by (simp add: race3_def m3_def rh3_def List.map_filter_def)

subsection \<open>C4\<close>

text \<open>
  C4, as the code has it. With \<open>r\<close> the number of calls of \<open>run_handler\<close> that returned a
  result: the results handled are always among those \<open>r\<close> (so a nil is never forwarded and
  no result is handled twice); once the counter of the WaitGroup is zero, \<open>Results\<close> is the
  seeded count plus \<open>r\<close> (\<open>r\<close> itself on a fresh run, where the seed is zero), and if the
  collector is idle as well the handler has been called on exactly those \<open>r\<close> results.
\<close>

theorem C4_results_handled_once:
  assumes new: "NewMachine ncpu c path (Some sess) rh = Inr m"
    and run: "exec en es (boot m) = Some s"
  shows "mset (handled s) \<subseteq># mset (List.map_filter rh (ran s))
    \<and> (wait (machine s) = 0 \<longrightarrow>
         Results (Stats (machine s))
           = Results (Stats m) + of_nat (length (List.map_filter rh (ran s))))
    \<and> (wait (machine s) = 0 \<and> collector s = C_recv \<longrightarrow>
         mset (handled s) = mset (List.map_filter rh (ran s))
         \<and> length (handled s) = length (List.map_filter rh (ran s)))
    \<and> Results (Stats m) = (case Session.Stats sess of None \<Rightarrow> 0
         | Some st \<Rightarrow> if 0 < Execs st then Results st else 0)"
proof -
  from new have rh: "run_handler m = rh"
    and seed: "Results (Stats m) = (case Session.Stats sess of None \<Rightarrow> 0
         | Some st \<Rightarrow> if 0 < Execs st then Results st else 0)"
    by (cases rule: NewMachine_Inr; simp add: zero_Statistics_def split: option.splits)+
  from reach_inv[OF new run] have y: "inv_sync m s" and l: "inv_logs m s" by (simp_all add: inv_def)
  from l have "mset (List.map_filter rh (ran s))
       = mset (handled s) + cheld (collector s) + tally unhanded s"
    by (simp add: inv_logs_def rh)
  then have a: "mset (handled s) \<subseteq># mset (List.map_filter rh (ran s))" by (simp add: add.assoc)
  have b: "Results (Stats (machine s))
           = Results (Stats m) + of_nat (length (List.map_filter rh (ran s)))"
    if "wait (machine s) = 0" using idle_logs(4)[OF y l that] rh by simp
  have c: "mset (handled s) = mset (List.map_filter rh (ran s))"
    if "wait (machine s) = 0" "collector s = C_recv" using idle_logs(5)[OF y l that(1)] rh that(2) by simp
  from c have d: "length (handled s) = length (List.map_filter rh (ran s))"
    if "wait (machine s) = 0" "collector s = C_recv" using that by (metis size_mset)
  from a b c d seed show ?thesis by blast
qed

text \<open>C4 amended, at the end of the fresh run: one result, handled once, \<open>Results = 1\<close>.\<close>

theorem C4_witness:
  "NewMachine 1 2 ''words'' (Some fresh_session) rh3 = Inr m3
   \<and> exec env3 (sched3 @ [Handle]) (boot m3) = Some fin3
   \<and> wait (machine fin3) = 0 \<and> collector fin3 = C_recv
   \<and> List.map_filter rh3 (ran fin3) = [''root'']
   \<and> handled fin3 = [''root''] \<and> Results (Stats (machine fin3)) = 1"
proof -
  have "wait (machine fin3) = 0" "collector fin3 = C_recv"
    "List.map_filter rh3 (ran fin3) = [''root'']" "Results (Stats m3) = 0"
    by (simp_all add: fin3_def race3_def m3_def rh3_def List.map_filter_def zero_Statistics_def)
  with C4_results_handled_once[OF new3 run_fin3] new3 run_fin3 show ?thesis by simp
qed

text \<open>
  C4 as stated fails on the resumed run \<open>sched3r\<close>: the one job it processes returns nil
  and the handler is never called, yet \<open>Results\<close> is 1, the count of the prior session.
\<close>

theorem C4_counterexample:
  "NewMachine 1 2 ''words'' (Some resumed_session) rh3 = Inr m3r
   \<and> exec env3 sched3r (boot m3r) = Some fin3r \<and> main fin3r = Finalized
   \<and> wait (machine fin3r) = 0 \<and> collector fin3r = C_recv
   \<and> ran fin3r = [''guest''] \<and> List.map_filter rh3 (ran fin3r) = []
   \<and> handled fin3r = [] \<and> Results (Stats (machine fin3r)) = 1
   \<and> Results (Stats (machine fin3r)) \<noteq> of_nat (length (List.map_filter rh3 (ran fin3r)))"
  using new3r run_fin3r by (simp add: fin3r_def m3r_def rh3_def List.map_filter_def)

subsection \<open>C5\<close>

text \<open>
  C5, as the code has it. \<open>UpdateStats\<close> has no test of \<open>Inputs\<close>: with \<open>Inputs = 0\<close> it
  computes \<open>Progress\<close> by the float64 division by zero, which does not fault. The result
  is never a finite number, whatever the rounding. It is NaN when \<open>Execs\<close> is zero too. It
  is \<open>+Inf\<close> when \<open>Execs\<close> is positive: under every rounding when \<open>Execs\<close> is at most
  \<open>2^53\<close>, where the conversion to float64 is exact, and for a larger \<open>Execs\<close> under every
  rounding that takes a number of at least 1 to a positive float64 or to \<open>+Inf\<close>, as the
  rounding of IEEE 754 does.
\<close>

theorem C5_progress_divides_by_zero:
  assumes "Inputs (Stats m) = 0"
  shows "Progress (Stats (UpdateStats en m))
      = fmul (round64 en)
          (fdiv (round64 en) (float_of_int (round64 en) (uint (Execs (Stats m)))) (Fin 0)) (Fin 100)
    \<and> (Execs (Stats m) = 0 \<longrightarrow> Progress (Stats (UpdateStats en m)) = NaN)
    \<and> (Execs (Stats m) \<noteq> 0
         \<and> (uint (Execs (Stats m)) \<le> 2 ^ 53 \<or> keeps_positive (round64 en))
         \<longrightarrow> Progress (Stats (UpdateStats en m)) = PInf)
    \<and> (\<forall>q. Progress (Stats (UpdateStats en m)) \<noteq> Fin q)"
proof -
  have p: "Progress (Stats (UpdateStats en m))
      = fmul (round64 en)
          (fdiv (round64 en) (float_of_int (round64 en) (uint (Execs (Stats m)))) (Fin 0)) (Fin 100)"
    using assms by (simp add: UpdateStats_def Let_def float_of_int_def)
  have d: "fdiv r x (Fin 0) \<noteq> Fin q" for r x q by (cases x) simp_all
  have "fmul r y (Fin 100) \<noteq> Fin q" if "\<And>q'. y \<noteq> Fin q'" for r y q
    using that by (cases y) auto
  with d have n: "\<forall>q. Progress (Stats (UpdateStats en m)) \<noteq> Fin q" unfolding p by blast
  have z: "Execs (Stats m) = 0 \<longrightarrow> Progress (Stats (UpdateStats en m)) = NaN"
    unfolding p by (simp add: float_of_int_def)
  have pos: "0 < uint (Execs (Stats m))" if "Execs (Stats m) \<noteq> 0"
    using that uint_0_iff[of "Execs (Stats m)"] uint_nonnegative[of "Execs (Stats m)"] by linarith
  have inf: "fmul r (fdiv r x (Fin 0)) (Fin 100) = PInf"
    if "x = PInf \<or> (\<exists>a. 0 < a \<and> x = Fin a)" for r x
    using that by auto
  have small: "float_of_int (round64 en) (uint (Execs (Stats m)))
      = Fin (of_int (uint (Execs (Stats m))))
      \<and> 0 < (of_int (uint (Execs (Stats m))) :: rat)"
    if "Execs (Stats m) \<noteq> 0" "uint (Execs (Stats m)) \<le> 2 ^ 53"
  proof -
    from pos[OF that(1)] have "0 < (of_int (uint (Execs (Stats m))) :: rat)"
      by (simp only: of_int_0_less_iff)
    moreover from that(2) pos[OF that(1)]
    have "float_of_int (round64 en) (uint (Execs (Stats m)))
      = Fin (of_int (uint (Execs (Stats m))))" unfolding float_of_int_def by simp
    ultimately show ?thesis by blast
  qed
  have large: "float_of_int (round64 en) (uint (Execs (Stats m))) = PInf
      \<or> (\<exists>a. 0 < a \<and> float_of_int (round64 en) (uint (Execs (Stats m))) = Fin a)"
    if ne: "Execs (Stats m) \<noteq> 0" and kp: "keeps_positive (round64 en)"
  proof (cases "uint (Execs (Stats m)) \<le> 2 ^ 53")
    case True
    from small[OF ne True] show ?thesis by blast
  next
    case False
    then have "(2 ^ 53 :: int) < uint (Execs (Stats m))" by simp
    then have "(1 :: int) \<le> uint (Execs (Stats m))" by simp
    then have "(1 :: rat) \<le> of_int (uint (Execs (Stats m)))" by (simp only: of_int_1_le_iff)
    with kp have "round64 en (of_int (uint (Execs (Stats m)))) = PInf
      \<or> (\<exists>a. 0 < a \<and> round64 en (of_int (uint (Execs (Stats m)))) = Fin a)"
      unfolding keeps_positive_def by blast
    moreover from False pos[OF ne]
    have "float_of_int (round64 en) (uint (Execs (Stats m)))
        = round64 en (of_int (uint (Execs (Stats m))))" by (simp add: float_of_int_def)
    ultimately show ?thesis by simp
  qed
  have i: "Execs (Stats m) \<noteq> 0
         \<and> (uint (Execs (Stats m)) \<le> 2 ^ 53 \<or> keeps_positive (round64 en))
         \<longrightarrow> Progress (Stats (UpdateStats en m)) = PInf"
  proof (intro impI)
    assume a: "Execs (Stats m) \<noteq> 0
         \<and> (uint (Execs (Stats m)) \<le> 2 ^ 53 \<or> keeps_positive (round64 en))"
    then have "float_of_int (round64 en) (uint (Execs (Stats m))) = PInf
      \<or> (\<exists>a. 0 < a \<and> float_of_int (round64 en) (uint (Execs (Stats m))) = Fin a)"
      using small large by blast
    from inf[OF this] show "Progress (Stats (UpdateStats en m)) = PInf" unfolding p .
  qed
  from p n z i show ?thesis by blast
qed

text \<open>
  C5 amended, at a machine with two executions and no inputs and at one with \<open>2^60\<close>
  executions and no inputs, under exact rounding: \<open>Progress = +Inf\<close> at both.
\<close>

theorem C5_witness:
  "Inputs (Stats m5) = 0 \<and> Execs (Stats m5) = 2 \<and> Progress (Stats (UpdateStats env3 m5)) = PInf
   \<and> Inputs (Stats m6) = 0 \<and> Execs (Stats m6) = 2 ^ 60 \<and> keeps_positive (round64 env3)
   \<and> Progress (Stats (UpdateStats env3 m6)) = PInf"
proof -
  have a: "Inputs (Stats m5) = 0" and b: "Execs (Stats m5) = 2"
    by (simp_all add: m5_def m3r_def prior3_def)
  have c: "Inputs (Stats m6) = 0" and d: "Execs (Stats m6) = 2 ^ 60"
    and e: "Execs (Stats m6) \<noteq> 0"
    by (simp_all add: m6_def m3r_def prior3_def)
  have k: "keeps_positive (round64 env3)"
    by (simp add: keeps_positive_def env3_def)
  from C5_progress_divides_by_zero[OF a, of env3]
  have "Execs (Stats m5) \<noteq> 0
         \<and> (uint (Execs (Stats m5)) \<le> 2 ^ 53 \<or> keeps_positive (round64 env3))
         \<longrightarrow> Progress (Stats (UpdateStats env3 m5)) = PInf" by blast
  with b have f: "Progress (Stats (UpdateStats env3 m5)) = PInf" by simp
  from C5_progress_divides_by_zero[OF c, of env3]
  have "Execs (Stats m6) \<noteq> 0
         \<and> (uint (Execs (Stats m6)) \<le> 2 ^ 53 \<or> keeps_positive (round64 env3))
         \<longrightarrow> Progress (Stats (UpdateStats env3 m6)) = PInf" by blast
  with e k have g: "Progress (Stats (UpdateStats env3 m6)) = PInf" by blast
  from a b c d k f g show ?thesis by blast
qed

text \<open>
  C5 as stated fails at the machine \<open>NewMachine\<close> builds for a fresh session, whose
  \<open>Inputs\<close> is zero: \<open>UpdateStats\<close> leaves \<open>Progress = NaN\<close>, the quotient \<open>0 / 0\<close>.
\<close>

theorem C5_counterexample:
  "NewMachine 1 2 ''words'' (Some fresh_session) rh3 = Inr m3 \<and> Inputs (Stats m3) = 0
   \<and> Progress (Stats (UpdateStats env3 m3)) = NaN
   \<and> Progress (Stats (UpdateStats env3 m3)) \<noteq> Fin 0"
  using new3 by (simp add: m3_def env3_def run_defs)

subsection \<open>C6\<close>

text \<open>
  C6, as the code has it. \<open>Start\<close> starts the workers and the collector first and counts
  afterwards: throughout the counting pass every worker and the collector is started and
  blocked in its receive, and nothing has been submitted; and whenever a line has been
  submitted, the main goroutine is past the counting loop and \<open>Inputs\<close> is the number of
  lines that loop read.
\<close>

theorem C6_workers_start_before_counting:
  assumes new: "NewMachine ncpu c path (Some sess) rh = Inr m"
    and run: "exec en es (boot m) = Some s"
  shows "((main s = OpenCount \<or> (\<exists>rest. main s = Counting rest)) \<longrightarrow>
            workers s = replicate (consumers m) W_recv \<and> collector s = C_recv
            \<and> submitted s = [])
    \<and> (submitted s \<noteq> [] \<longrightarrow>
          counting_done (main s)
          \<and> (\<exists>ls. LineReader (fs_count en) path 0 = Inr ls
             \<and> Inputs (Stats (machine s)) = of_nat (length ls)))"
proof -
  from new have f: "filename m = path" by (cases rule: NewMachine_Inr) simp
  from reach_inv[OF new run] have y: "inv_sync m s" and p: "phase_inv en m s (main s)"
    by (simp_all add: inv_def)
  have a: "workers s = replicate (consumers m) W_recv \<and> collector s = C_recv \<and> submitted s = []"
    if "main s = OpenCount \<or> (\<exists>rest. main s = Counting rest)"
  proof -
    from that p have q: "quiet m s" by auto
    from that have sp: "\<And>j. spawned (main s) j" and co: "collecting (main s)" by auto
    from q quiet_workers[OF y _ sp] quiet_collector[OF y _ co] show ?thesis
      by (simp add: quiet_def)
  qed
  have b: "\<exists>ls. LineReader (fs_count en) path 0 = Inr ls
             \<and> Inputs (Stats (machine s)) = of_nat (length ls)" if "submitted s \<noteq> []"
  proof -
    from submitted_pumping[OF p that] f show ?thesis
      by (cases "LineReader (fs_count en) path 0") (simp_all add: opened_def count_of_def)
  qed
  have c: "counting_done (main s)" if "submitted s \<noteq> []"
    using submitted_counted[OF p that] .
  from a b c show ?thesis by blast
qed

text \<open>C6 amended, in the counting pass of the fresh run and at its end.\<close>

theorem C6_witness:
  "exec env3 [Main, Main, Main, Main, Main, Main, Main, Main] (boot m3) = Some counting3
   \<and> main counting3 = Counting [''root'', ''guest'']
   \<and> workers counting3 = [W_recv, W_recv] \<and> collector counting3 = C_recv
   \<and> submitted counting3 = []
   \<and> exec env3 (sched3 @ [Handle]) (boot m3) = Some fin3 \<and> submitted fin3 \<noteq> []
   \<and> counting_done (main fin3) \<and> Inputs (Stats (machine fin3)) = 3"
proof -
  have a: "main counting3 = Counting [''root'', ''guest'']" by (simp add: counting3_def)
  have b: "submitted fin3 \<noteq> []" by (simp add: fin3_def race3_def)
  have c: "consumers m3 = 2" by (simp add: m3_def)
  have d: "LineReader (fs_count env3) ''words'' 0 = Inr [''admin'', ''root'', ''guest'']"
    by (simp add: LineReader_def src3)
  from C6_workers_start_before_counting[OF new3 run_counting3]
    C6_workers_start_before_counting[OF new3 run_fin3] a b c d run_counting3 run_fin3
  show ?thesis by (simp add: replicate_2)
qed

text \<open>
  C6 as stated fails after six statements of \<open>Start\<close>: the line source has not been opened
  for counting yet, and both workers and the collector are started.
\<close>

theorem C6_counterexample:
  "exec env3 [Main, Main, Main, Main, Main, Main] (boot m3r) = Some reset3r
   \<and> main reset3r = OpenCount \<and> \<not> counting_done (main reset3r)
   \<and> workers reset3r = [W_recv, W_recv] \<and> collector reset3r = C_recv"
  using run_reset3r by (simp add: reset3r_def)

subsection \<open>C7\<close>

text \<open>
  C7. When the first call of \<open>LineReader\<close> fails, or the first succeeds and the second
  fails, the main goroutine alone reaches the return of that error from \<open>Start\<close>, and in
  every reachable state nothing has been submitted, no handler has been called, the
  counter of the WaitGroup is zero, \<open>Execs\<close> and \<open>Results\<close> are as seeded, \<open>Start\<close> has not
  returned nil, and the only error it returns is that one.
\<close>

theorem C7_open_failure_no_submission:
  assumes new: "NewMachine ncpu c path (Some sess) rh = Inr m"
    and fail: "LineReader (fs_count en) path 0 = Inl err
      \<or> (\<exists>ls. LineReader (fs_count en) path 0 = Inr ls) \<and> LineReader (fs_run en) path 0 = Inl err"
  shows "(\<exists>n. map_option main (exec en (replicate n Main) (boot m)) = Some (Failed err))
    \<and> (\<forall>es s. exec en es (boot m) = Some s \<longrightarrow>
          submitted s = [] \<and> ran s = [] \<and> handled s = [] \<and> wait (machine s) = 0
        \<and> Execs (Stats (machine s)) = Execs (Stats m)
        \<and> Results (Stats (machine s)) = Results (Stats m)
        \<and> main s \<noteq> Started \<and> main s \<noteq> Waited \<and> main s \<noteq> Finalized
        \<and> (\<forall>e. main s = Failed e \<longrightarrow> e = err))"
proof -
  from new have f: "filename m = path" by (cases rule: NewMachine_Inr) simp
  from failing_run[of en m err] fail f
  have a: "\<exists>n. map_option main (exec en (replicate n Main) (boot m)) = Some (Failed err)" by simp
  have b: "submitted s = [] \<and> ran s = [] \<and> handled s = [] \<and> wait (machine s) = 0
        \<and> Execs (Stats (machine s)) = Execs (Stats m)
        \<and> Results (Stats (machine s)) = Results (Stats m)
        \<and> main s \<noteq> Started \<and> main s \<noteq> Waited \<and> main s \<noteq> Finalized
        \<and> (\<forall>e. main s = Failed e \<longrightarrow> e = err)" if "exec en es (boot m) = Some s" for es s
  proof -
    from reach_inv[OF new that] have "phase_inv en m s (main s)" by (simp add: inv_def)
    from failing_quiet[OF this, of err] fail f show ?thesis by (simp add: quiet_def)
  qed
  from a b show ?thesis by blast
qed

text \<open>C7 at a file that does not open: \<open>Start\<close> returns the error after seven statements.\<close>

theorem C7_witness:
  "NewMachine 1 2 ''missing'' (Some fresh_session) rh3 = Inr m4
   \<and> LineReader (fs_count env3) ''missing'' 0 = Inl (IOError ''missing'')
   \<and> exec env3 [Main, Main, Main, Main, Main, Main, Main] (boot m4) = Some failed4
   \<and> main failed4 = Failed (IOError ''missing'')
   \<and> submitted failed4 = [] \<and> ran failed4 = [] \<and> handled failed4 = []
   \<and> Execs (Stats (machine failed4)) = 0"
proof -
  have a: "LineReader (fs_count env3) ''missing'' 0 = Inl (IOError ''missing'')"
    by (simp add: LineReader_def env3_def fs3_def)
  then have "LineReader (fs_count env3) ''missing'' 0 = Inl (IOError ''missing'')
      \<or> (\<exists>ls. LineReader (fs_count env3) ''missing'' 0 = Inr ls)
        \<and> LineReader (fs_run env3) ''missing'' 0 = Inl (IOError ''missing'')" by simp
  from C7_open_failure_no_submission[OF new4 this] run_failed4
  have "submitted failed4 = [] \<and> ran failed4 = [] \<and> handled failed4 = []
    \<and> Execs (Stats (machine failed4)) = Execs (Stats m4)" by blast
  moreover have "Execs (Stats m4) = 0" "main failed4 = Failed (IOError ''missing'')"
    by (simp_all add: m4_def failed4_def zero_Statistics_def)
  ultimately show ?thesis using new4 a run_failed4 by simp
qed

subsection \<open>C8\<close>

text \<open>
  C8, as the code has it. \<open>Start\<close> sets \<open>Inputs\<close> to zero before it counts, so on a
  resumed run \<open>Execs \<le> Inputs\<close> fails until the count is complete. For a wordlist of fewer
  than \<open>2^64\<close> lines that both passes read and a seeded \<open>Execs\<close> of at most that many:
  \<open>Execs \<le> Inputs\<close> holds in every reachable state of a fresh run, and in every reachable
  state after the counting loop of a resumed run.
\<close>

theorem C8_execs_le_inputs:
  assumes new: "NewMachine ncpu c path (Some sess) rh = Inr m"
    and src: "fs_count en path = Inr ls" "fs_run en path = Inr ls"
    and len: "length ls < 2 ^ 64"
    and seed: "unat (Execs (Stats m)) \<le> length ls"
    and run: "exec en es (boot m) = Some s"
    and at: "Execs (Stats m) = 0 \<or> counting_done (main s)"
  shows "Execs (Stats (machine s)) \<le> Inputs (Stats (machine s))"
proof -
  from new have f: "filename m = path" by (cases rule: NewMachine_Inr) simp
  from reach_inv[OF new run] have l: "inv_logs m s" and p: "phase_inv en m s (main s)"
    by (simp_all add: inv_def)
  from src f have co: "count_of en m = of_nat (length ls)"
    by (simp add: count_of_def LineReader_def)
  have ts: "length (to_submit en m) = length ls - unat (Execs (Stats m))"
  proof (cases "Execs (Stats m) = 0")
    case True
    with src f show ?thesis by (simp add: to_submit_def LineReader_def)
  next
    case False
    then have "0 < Execs (Stats m)" by (simp add: word_greater_zero_iff)
    with src f False show ?thesis by (simp add: to_submit_def LineReader_def skip_loop_drop)
  qed
  from fresh_execs_le[of "Execs (Stats m)" 0 "length ls"] seed len
  have base: "Execs (Stats m) \<le> of_nat (length ls)" by simp
  have pumping: "Execs (Stats (machine s)) \<le> of_nat (length ls)"
    if "length (submitted s) \<le> length (to_submit en m)"
  proof -
    from l have e: "Execs (Stats (machine s))
        = Execs (Stats m) + of_nat (length (ran s) + tally counted s)"
      by (simp add: inv_logs_def)
    from ran_le_submitted[OF l] that ts seed
    have "unat (Execs (Stats m)) + (length (ran s) + tally counted s) \<le> length ls" by simp
    from fresh_execs_le[OF this len] e show ?thesis by simp
  qed
  show ?thesis
  proof (cases "main s")
    case (Failed err)
    with p src f show ?thesis by (simp add: LineReader_def)
  qed (use p at co base pumping in \<open>auto simp: quiet_def frame_def\<close>)
qed

text \<open>C8 amended, at the end of the resumed run and in the counting pass of the fresh run.\<close>

theorem C8_witness:
  "exec env3 sched3r (boot m3r) = Some fin3r \<and> counting_done (main fin3r)
   \<and> unat (Execs (Stats m3r)) \<le> length [''admin'', ''root'', ''guest'']
   \<and> Execs (Stats (machine fin3r)) \<le> Inputs (Stats (machine fin3r))
   \<and> exec env3 [Main, Main, Main, Main, Main, Main, Main, Main] (boot m3) = Some counting3
   \<and> Execs (Stats m3) = 0
   \<and> Execs (Stats (machine counting3)) \<le> Inputs (Stats (machine counting3))"
proof -
  have l: "length [''admin'', ''root'', ''guest''] < 2 ^ 64" by simp
  have a: "unat (Execs (Stats m3r)) \<le> length [''admin'', ''root'', ''guest'']"
    and b: "counting_done (main fin3r)"
    by (simp_all add: m3r_def prior3_def fin3r_def)
  have c: "unat (Execs (Stats m3)) \<le> length [''admin'', ''root'', ''guest'']"
    and d: "Execs (Stats m3) = 0"
    by (simp_all add: m3_def zero_Statistics_def)
  from C8_execs_le_inputs[OF new3r src3 l a run_fin3r disjI2[OF b]]
    C8_execs_le_inputs[OF new3 src3 l c run_counting3 disjI1[OF d]]
    a b d run_fin3r run_counting3
  show ?thesis by simp
qed

text \<open>
  C8 as stated fails on the resumed run right after \<open>m.Stats.Inputs = 0\<close>: \<open>Execs\<close> is 2,
  \<open>Inputs\<close> is 0.
\<close>

theorem C8_counterexample:
  "NewMachine 1 2 ''words'' (Some resumed_session) rh3 = Inr m3r
   \<and> exec env3 [Main, Main, Main, Main, Main, Main] (boot m3r) = Some reset3r
   \<and> Execs (Stats (machine reset3r)) = 2 \<and> Inputs (Stats (machine reset3r)) = 0
   \<and> \<not> Execs (Stats (machine reset3r)) \<le> Inputs (Stats (machine reset3r))"
  using new3r run_reset3r by (simp add: reset3r_def m3r_def prior3_def)

subsection \<open>C9\<close>

text \<open>
  C9. In every run \<open>Inputs\<close> is zero once \<open>Start\<close> has reset it, and after the counting
  loop it is the number of lines the first pass read (zero when the file did not open),
  whatever the seeded value was. On a resumed run (the session's statistics \<open>st\<close> have
  \<open>Execs > 0\<close>) the machine starts from \<open>st\<close>; \<open>Start\<close> keeps the value of \<open>st\<close> in every
  reachable state; \<open>Stop\<close>, \<open>Total\<close>, \<open>Eps\<close> and \<open>Progress\<close> keep theirs until
  \<open>UpdateStats\<close>; once all jobs are complete \<open>Execs\<close> and \<open>Results\<close> are the prior counts plus
  those of this run; and \<open>UpdateStats\<close> computes \<open>Total\<close> from the prior start time and
  \<open>Eps\<close> from the accumulated \<open>Execs\<close> and that \<open>Total\<close>.
\<close>

theorem C9_start_keeps_seed:
  assumes new: "NewMachine ncpu c path (Some sess) rh = Inr m"
    and run: "exec en es (boot m) = Some s"
  shows "(main s = OpenCount \<longrightarrow> Inputs (Stats (machine s)) = 0)
    \<and> (counting_done (main s) \<longrightarrow> Inputs (Stats (machine s))
          = (case LineReader (fs_count en) path 0 of Inl err \<Rightarrow> 0 | Inr ls \<Rightarrow> of_nat (length ls)))
    \<and> (\<forall>st. Session.Stats sess = Some st \<and> 0 < Execs st \<longrightarrow>
          Stats m = st
        \<and> Start (Stats (machine s)) = Start st
        \<and> (main s \<noteq> Finalized \<longrightarrow> Stop (Stats (machine s)) = Stop st
              \<and> Total (Stats (machine s)) = Total st \<and> Eps (Stats (machine s)) = Eps st
              \<and> Progress (Stats (machine s)) = Progress st)
        \<and> (wait (machine s) = 0 \<longrightarrow>
              Execs (Stats (machine s)) = Execs st + of_nat (length (ran s))
            \<and> Results (Stats (machine s))
                = Results st + of_nat (length (List.map_filter rh (ran s))))
        \<and> (main s = Finalized \<longrightarrow>
              Stop (Stats (machine s)) = now_stop en
            \<and> Total (Stats (machine s)) = Sub (now_stop en) (Start st)
            \<and> Eps (Stats (machine s))
                = fdiv (round64 en)
                    (float_of_int (round64 en) (uint (Execs st + of_nat (length (ran s)))))
                    (Seconds (round64 en) (Sub (now_stop en) (Start st)))))"
proof -
  from new have f: "filename m = path" and rh: "run_handler m = rh"
    by (cases rule: NewMachine_Inr; simp)+
  from reach_inv[OF new run] have y: "inv_sync m s" and l: "inv_logs m s"
    and p: "phase_inv en m s (main s)" by (simp_all add: inv_def)
  from p have a: "main s = OpenCount \<longrightarrow> Inputs (Stats (machine s)) = 0"
    by (auto simp: frame_def)
  from p f have b: "counting_done (main s) \<longrightarrow> Inputs (Stats (machine s))
          = (case LineReader (fs_count en) path 0 of Inl err \<Rightarrow> 0 | Inr ls \<Rightarrow> of_nat (length ls))"
    by (cases "main s") (simp_all add: frame_def count_of_def)
  have c: "Stats m = st
        \<and> Start (Stats (machine s)) = Start st
        \<and> (main s \<noteq> Finalized \<longrightarrow> Stop (Stats (machine s)) = Stop st
              \<and> Total (Stats (machine s)) = Total st \<and> Eps (Stats (machine s)) = Eps st
              \<and> Progress (Stats (machine s)) = Progress st)
        \<and> (wait (machine s) = 0 \<longrightarrow>
              Execs (Stats (machine s)) = Execs st + of_nat (length (ran s))
            \<and> Results (Stats (machine s))
                = Results st + of_nat (length (List.map_filter rh (ran s))))
        \<and> (main s = Finalized \<longrightarrow>
              Stop (Stats (machine s)) = now_stop en
            \<and> Total (Stats (machine s)) = Sub (now_stop en) (Start st)
            \<and> Eps (Stats (machine s))
                = fdiv (round64 en)
                    (float_of_int (round64 en) (uint (Execs st + of_nat (length (ran s)))))
                    (Seconds (round64 en) (Sub (now_stop en) (Start st))))"
    if st: "Session.Stats sess = Some st" "0 < Execs st" for st
  proof -
    from new st have seed: "Stats m = st" by (cases rule: NewMachine_Inr) simp
    with st have so: "start_of en m = Start st" by (simp add: start_of_def)
    from p so seed have c1: "Start (Stats (machine s)) = Start st"
      by (cases "main s") (simp_all add: frame_def)
    from p seed have c2: "main s \<noteq> Finalized \<longrightarrow> Stop (Stats (machine s)) = Stop st
              \<and> Total (Stats (machine s)) = Total st \<and> Eps (Stats (machine s)) = Eps st
              \<and> Progress (Stats (machine s)) = Progress st"
      by (cases "main s") (simp_all add: frame_def)
    have c3: "Execs (Stats (machine s)) = Execs st + of_nat (length (ran s))
            \<and> Results (Stats (machine s))
                = Results st + of_nat (length (List.map_filter rh (ran s)))"
      if w: "wait (machine s) = 0"
    proof -
      from idle_logs(1)[OF y l w] have "length (ran s) = length (submitted s)" by (metis size_mset)
      with idle_logs(3,4)[OF y l w] seed rh show ?thesis by simp
    qed
    have c4: "Stop (Stats (machine s)) = now_stop en
            \<and> Total (Stats (machine s)) = Sub (now_stop en) (Start st)
            \<and> Eps (Stats (machine s))
                = fdiv (round64 en)
                    (float_of_int (round64 en) (uint (Execs st + of_nat (length (ran s)))))
                    (Seconds (round64 en) (Sub (now_stop en) (Start st)))"
      if fin: "main s = Finalized"
    proof -
      from p fin have w: "wait (machine s) = 0" and fz: "finalized en (Stats (machine s))"
        by simp_all
      from fz c1 c3[OF w] show ?thesis by (simp add: finalized_def)
    qed
    from seed c1 c2 c3 c4 show ?thesis by blast
  qed
  from a b c show ?thesis by blast
qed

text \<open>C9 at the end of the resumed run \<open>sched3r\<close>.\<close>

theorem C9_witness:
  "NewMachine 1 2 ''words'' (Some resumed_session) rh3 = Inr m3r
   \<and> Session.Stats resumed_session = Some prior3 \<and> 0 < Execs prior3
   \<and> exec env3 sched3r (boot m3r) = Some fin3r \<and> main fin3r = Finalized
   \<and> Inputs (Stats (machine fin3r)) = 3
   \<and> Start (Stats (machine fin3r)) = Start prior3
   \<and> Execs (Stats (machine fin3r)) = Execs prior3 + 1
   \<and> Results (Stats (machine fin3r)) = Results prior3
   \<and> Total (Stats (machine fin3r)) = 6000000000
   \<and> Eps (Stats (machine fin3r)) = Fin (1 / 2)"
proof -
  have p: "Session.Stats resumed_session = Some prior3 \<and> 0 < Execs prior3"
    by (simp add: resumed_session_def prior3_def)
  have m: "main fin3r = Finalized" "wait (machine fin3r) = 0" "ran fin3r = [''guest'']"
    by (simp_all add: fin3r_def m3r_def)
  have d: "LineReader (fs_count env3) ''words'' 0 = Inr [''admin'', ''root'', ''guest'']"
    by (simp add: LineReader_def src3)
  have e: "Sub (now_stop env3) (Start prior3) = 6000000000"
    "Eps (Stats (machine fin3r)) = Fin (1 / 2)"
    by (simp_all add: env3_def prior3_def fin3r_def run_defs)
  from C9_start_keeps_seed[OF new3r run_fin3r] p
  have "Start (Stats (machine fin3r)) = Start prior3
    \<and> (wait (machine fin3r) = 0 \<longrightarrow>
          Execs (Stats (machine fin3r)) = Execs prior3 + of_nat (length (ran fin3r))
        \<and> Results (Stats (machine fin3r))
            = Results prior3 + of_nat (length (List.map_filter rh3 (ran fin3r))))
    \<and> (main fin3r = Finalized \<longrightarrow> Total (Stats (machine fin3r)) = Sub (now_stop env3) (Start prior3))
    \<and> (counting_done (main fin3r) \<longrightarrow> Inputs (Stats (machine fin3r))
          = (case LineReader (fs_count env3) ''words'' 0 of Inl err \<Rightarrow> 0
             | Inr ls \<Rightarrow> of_nat (length ls)))"
    by blast
  with m d e p new3r run_fin3r show ?thesis by (simp add: rh3_def List.map_filter_def)
qed

subsection \<open>C10\<close>

text \<open>
  C10. \<open>NewMachine\<close> reads \<open>session.Stats\<close> before anything else that depends on the
  session: with a nil session the call panics on the nil dereference, whatever the other
  arguments, and it builds a machine exactly when the session is not nil.
\<close>

theorem C10_nil_session_faults:
  "NewMachine ncpu c path None rh = Inl NilDereference
   \<and> isl (NewMachine ncpu c path sess rh) = (sess = None)"
  by (cases sess) (simp_all add: NewMachine_def Let_def)

end
